theory Spec2Isabelle
  imports Complex_Main
begin

section \<open>JavaScript values, arrays and the heap\<close>

text \<open>
  The program is one TypeScript module: the class \<open>Life.Model\<close> (a data model holding two
  generation buffers and an interval timer) and the statics \<open>Model.random\<close> and
  \<open>Model.tick\<close>. A generation has type \<open>Bit[][]\<close>: an array of references to row arrays.

  The only exception the code can raise is the runtime's \<open>TypeError\<close> (a property read or
  write on \<open>undefined\<close>). \<open>DimensionMismatch\<close> and \<open>IndexOutOfBounds\<close> are the error
  kinds the specification names; no statement of the source raises them.
\<close>

datatype error = TypeError | DimensionMismatch | IndexOutOfBounds

text \<open>
  An array element is a number (\<open>Bit = 1 | 0\<close> when well typed), or \<open>undefined\<close> (also a
  hole of a sparse array), or \<open>null\<close> (what a JSON round trip makes of \<open>undefined\<close>).
\<close>

datatype jsval = Undefined | Null | Num nat

text \<open>A JavaScript number that arises from adding array elements: \<open>None\<close> is NaN.\<close>

type_synonym number = "nat option"

fun to_number :: "jsval \<Rightarrow> number" where
  "to_number Undefined = None"
| "to_number Null = Some 0"
| "to_number (Num n) = Some n"

fun truthy :: "jsval \<Rightarrow> bool" where
  "truthy Undefined = False"
| "truthy Null = False"
| "truthy (Num n) = (n \<noteq> 0)"

text \<open>The operator \<open>+\<close> on numbers; every comparison with NaN is false.\<close>

definition add :: "number \<Rightarrow> number \<Rightarrow> number" where
  "add a b = (case a of None \<Rightarrow> None | Some x \<Rightarrow> (case b of None \<Rightarrow> None | Some y \<Rightarrow> Some (x + y)))"

definition lt :: "number \<Rightarrow> nat \<Rightarrow> bool" where
  "lt a k = (case a of None \<Rightarrow> False | Some x \<Rightarrow> x < k)"

definition gt :: "number \<Rightarrow> nat \<Rightarrow> bool" where
  "gt a k = (case a of None \<Rightarrow> False | Some x \<Rightarrow> k < x)"

definition eqq :: "number \<Rightarrow> nat \<Rightarrow> bool" where
  "eqq a k = (case a of None \<Rightarrow> False | Some x \<Rightarrow> x = k)"

text \<open>
  Row arrays live in the heap, addressed by references; \<open>next_ref\<close> is the first reference
  not yet allocated. An outer array is never written by any statement of the source, so a
  generation is held as the list of its row references. \<open>random\<close> is the sequence of
  values that \<open>Math.random()\<close> returns, \<open>drawn\<close> the number of calls made so far.
\<close>

type_synonym ref = nat
type_synonym matrix = "ref list"

record js =
  heap :: "ref \<Rightarrow> jsval list"
  next_ref :: ref
  random :: "nat \<Rightarrow> real"
  drawn :: nat

text \<open>\<open>xs[j]\<close> on a row: the element, or \<open>undefined\<close> out of range.\<close>

definition elem :: "jsval list \<Rightarrow> nat \<Rightarrow> jsval" where
  "elem xs j = (if j < length xs then xs ! j else Undefined)"

text \<open>\<open>m[i]\<close> on an outer array: the row reference, or \<open>None\<close> for \<open>undefined\<close>.\<close>

definition row_of :: "matrix \<Rightarrow> nat \<Rightarrow> ref option" where
  "row_of m i = (if i < length m then Some (m ! i) else None)"

text \<open>\<open>m[a][b]\<close>: reading a property of \<open>undefined\<close> throws.\<close>

definition get2 :: "(ref \<Rightarrow> jsval list) \<Rightarrow> matrix \<Rightarrow> nat \<Rightarrow> nat \<Rightarrow> error + jsval" where
  "get2 h m a b = (case row_of m a of None \<Rightarrow> Inl TypeError | Some r \<Rightarrow> Inr (elem (h r) b))"

text \<open>
  \<open>xs[j] = v\<close> on a row: in range it overwrites; at or beyond the length JavaScript extends
  the array, leaving holes between the old end and \<open>j\<close>.
\<close>

definition array_set :: "jsval list \<Rightarrow> nat \<Rightarrow> jsval \<Rightarrow> jsval list" where
  "array_set xs j v =
     (if j < length xs then xs[j := v]
      else xs @ replicate (j - length xs) Undefined @ [v])"

definition bind :: "error + 'a \<Rightarrow> ('a \<Rightarrow> error + 'b) \<Rightarrow> error + 'b" where
  "bind x f = (case x of Inl e \<Rightarrow> Inl e | Inr v \<Rightarrow> f v)"

section \<open>\<open>Model.tick\<close>\<close>

text \<open>
  The conditional chain of the loop body. The second test is written
  \<open>alive && neighbors === 2 || neighbors === 3\<close>, which JavaScript reads as
  \<open>(alive && neighbors === 2) || neighbors === 3\<close>. \<open>cell\<close> starts at 0.
\<close>

definition rule :: "jsval \<Rightarrow> number \<Rightarrow> nat" where
  "rule alive neighbors =
     (if truthy alive \<and> lt neighbors 2 then 0
      else if (truthy alive \<and> eqq neighbors 2) \<or> eqq neighbors 3 then 1
      else if truthy alive \<and> gt neighbors 3 then 0
      else if \<not> truthy alive \<and> eqq neighbors 3 then 1
      else 0)"

text \<open>The sum of the eight reads, evaluated left to right.\<close>

definition neighbors_of ::
  "(ref \<Rightarrow> jsval list) \<Rightarrow> matrix \<Rightarrow> nat \<Rightarrow> nat \<Rightarrow> nat \<Rightarrow> nat \<Rightarrow> nat \<Rightarrow> nat \<Rightarrow> error + number" where
  "neighbors_of h input i j decX decY incX incY =
     bind (get2 h input decX decY) (\<lambda>a.
     bind (get2 h input i decY) (\<lambda>b.
     bind (get2 h input incX decY) (\<lambda>c.
     bind (get2 h input decX j) (\<lambda>d.
     bind (get2 h input incX j) (\<lambda>e.
     bind (get2 h input decX incY) (\<lambda>f.
     bind (get2 h input i incY) (\<lambda>g.
     bind (get2 h input incX incY) (\<lambda>k.
       Inr (add (add (add (add (add (add (add (to_number a) (to_number b)) (to_number c))
              (to_number d)) (to_number e)) (to_number f)) (to_number g)) (to_number k))))))))))"

text \<open>
  \<open>if (fluctuation && Math.random() < fluctuation) cell = 1 - cell\<close>: the draw is made only
  when \<open>fluctuation\<close> is truthy, that is non-zero.
\<close>

definition fluctuate :: "real \<Rightarrow> nat \<Rightarrow> js \<Rightarrow> nat \<times> js" where
  "fluctuate fluctuation cell s =
     (if fluctuation \<noteq> 0
      then (if random s (drawn s) < fluctuation then 1 - cell else cell,
            s\<lparr>drawn := drawn s + 1\<rparr>)
      else (cell, s))"

text \<open>\<open>output[i][j] = cell\<close>: writing a property of \<open>undefined\<close> throws.\<close>

definition put2 :: "matrix \<Rightarrow> nat \<Rightarrow> nat \<Rightarrow> jsval \<Rightarrow> js \<Rightarrow> (error + unit) \<times> js" where
  "put2 output i j v s =
     (case row_of output i of
        None \<Rightarrow> (Inl TypeError, s)
      | Some r \<Rightarrow> (Inr (), s\<lparr>heap := (heap s)(r := array_set (heap s r) j v)\<rparr>))"

text \<open>
  The body of the inner loop at \<open>(i, j)\<close>. It runs only under \<open>i < rows\<close> and
  \<open>j < columns\<close>, where \<open>lastRow = rows - 1\<close> and \<open>lastCol = columns - 1\<close> are not negative.
\<close>

definition tick_cell ::
  "matrix \<Rightarrow> matrix \<Rightarrow> real \<Rightarrow> nat \<Rightarrow> nat \<Rightarrow> nat \<Rightarrow> nat \<Rightarrow> js \<Rightarrow> (error + unit) \<times> js" where
  "tick_cell input output fluctuation lastRow lastCol i j s =
     (case get2 (heap s) input i j of
        Inl e \<Rightarrow> (Inl e, s)
      | Inr alive \<Rightarrow>
          (let decX = (if i \<ge> 1 then i - 1 else lastRow);
               decY = (if j \<ge> 1 then j - 1 else lastCol);
               incX = (if i + 1 \<le> lastRow then i + 1 else 0);
               incY = (if j + 1 \<le> lastCol then j + 1 else 0)
           in case neighbors_of (heap s) input i j decX decY incX incY of
                Inl e \<Rightarrow> (Inl e, s)
              | Inr neighbors \<Rightarrow>
                  (case fluctuate fluctuation (rule alive neighbors) s of
                     (cell, s') \<Rightarrow> put2 output i j (Num cell) s')))"

function tick_cols ::
  "matrix \<Rightarrow> matrix \<Rightarrow> real \<Rightarrow> nat \<Rightarrow> nat \<Rightarrow> nat \<Rightarrow> nat \<Rightarrow> nat \<Rightarrow> js \<Rightarrow> (error + unit) \<times> js" where
  "tick_cols input output fluctuation columns lastRow lastCol i j s =
     (if j < columns then
        (case tick_cell input output fluctuation lastRow lastCol i j s of
           (r, s') \<Rightarrow>
             (case r of
                Inl e \<Rightarrow> (Inl e, s')
              | Inr _ \<Rightarrow> tick_cols input output fluctuation columns lastRow lastCol i (j + 1) s'))
      else (Inr (), s))"
  by pat_completeness auto
termination
  by (relation "measure (\<lambda>(input, output, fluctuation, columns, lastRow, lastCol, i, j, s). columns - j)")
     auto

declare tick_cols.simps [simp del]

function tick_rows ::
  "matrix \<Rightarrow> matrix \<Rightarrow> real \<Rightarrow> nat \<Rightarrow> nat \<Rightarrow> nat \<Rightarrow> nat \<Rightarrow> nat \<Rightarrow> js \<Rightarrow> (error + unit) \<times> js" where
  "tick_rows input output fluctuation rows columns lastRow lastCol i s =
     (if i < rows then
        (case tick_cols input output fluctuation columns lastRow lastCol i 0 s of
           (r, s') \<Rightarrow>
             (case r of
                Inl e \<Rightarrow> (Inl e, s')
              | Inr _ \<Rightarrow> tick_rows input output fluctuation rows columns lastRow lastCol (i + 1) s'))
      else (Inr (), s))"
  by pat_completeness auto
termination
  by (relation "measure (\<lambda>(input, output, fluctuation, rows, columns, lastRow, lastCol, i, s). rows - i)")
     auto

declare tick_rows.simps [simp del]

text \<open>
  \<open>tick(input, output, fluctuation = 0)\<close>. \<open>input[0].length\<close> throws when \<open>input\<close> is
  empty. An exception leaves the writes made so far in the heap.
\<close>

definition tick :: "matrix \<Rightarrow> matrix \<Rightarrow> real option \<Rightarrow> js \<Rightarrow> (error + unit) \<times> js" where
  "tick input output fluct s =
     (let fluctuation = (case fluct of None \<Rightarrow> 0 | Some f \<Rightarrow> f);
          rows = length input
      in case row_of input 0 of
           None \<Rightarrow> (Inl TypeError, s)
         | Some r0 \<Rightarrow>
             (let columns = length (heap s r0);
                  lastCol = columns - 1;
                  lastRow = rows - 1
              in tick_rows input output fluctuation rows columns lastRow lastCol 0 s))"


section \<open>\<open>Model.random\<close>\<close>

text \<open>The module constants \<open>LIKELIHOOD\<close>, \<open>ROWS\<close>, \<open>COLUMNS\<close> and \<open>INTERVAL\<close>.\<close>

definition LIKELIHOOD :: real where "LIKELIHOOD = 25 / 100"
definition ROWS :: nat where "ROWS = 40"
definition COLUMNS :: nat where "COLUMNS = 40"
definition INTERVAL :: nat where "INTERVAL = 250"

function random_cols :: "real \<Rightarrow> nat \<Rightarrow> ref \<Rightarrow> nat \<Rightarrow> js \<Rightarrow> js" where
  "random_cols likelihood columns row j s =
     (if j < columns then
        random_cols likelihood columns row (j + 1)
          (s\<lparr>heap := (heap s)(row := array_set (heap s row) j
                        (Num (if random s (drawn s) < likelihood then 1 else 0))),
             drawn := drawn s + 1\<rparr>)
      else s)"
  by pat_completeness auto
termination
  by (relation "measure (\<lambda>(likelihood, columns, row, j, s). columns - j)") auto

declare random_cols.simps [simp del]

function random_rows :: "real \<Rightarrow> nat \<Rightarrow> nat \<Rightarrow> nat \<Rightarrow> matrix \<Rightarrow> js \<Rightarrow> matrix \<times> js" where
  "random_rows likelihood rows columns i data s =
     (if i < rows then
        (let row = next_ref s;
             s1 = s\<lparr>heap := (heap s)(row := []), next_ref := next_ref s + 1\<rparr>
         in random_rows likelihood rows columns (i + 1) (data @ [row])
              (random_cols likelihood columns row 0 s1))
      else (data, s))"
  by pat_completeness auto
termination
  by (relation "measure (\<lambda>(likelihood, rows, columns, i, data, s). rows - i)") auto

declare random_rows.simps [simp del]

definition random_world :: "nat \<Rightarrow> nat \<Rightarrow> real \<Rightarrow> js \<Rightarrow> matrix \<times> js" where
  "random_world rows columns likelihood s = random_rows likelihood rows columns 0 [] s"

section \<open>The class \<open>Life.Model\<close>\<close>

text \<open>
  \<open>JSON.parse(JSON.stringify(state))\<close>: the text is made of the rows as they are, with
  \<open>undefined\<close> written as \<open>null\<close>; parsing it then allocates a new array for every row.
\<close>

fun json_val :: "jsval \<Rightarrow> jsval" where
  "json_val Undefined = Null"
| "json_val Null = Null"
| "json_val (Num n) = Num n"

fun alloc_rows :: "jsval list list \<Rightarrow> js \<Rightarrow> matrix \<times> js" where
  "alloc_rows [] s = ([], s)"
| "alloc_rows (xs # xss) s =
     (case alloc_rows xss (s\<lparr>heap := (heap s)(next_ref s := xs), next_ref := next_ref s + 1\<rparr>) of
        (m, s') \<Rightarrow> (next_ref s # m, s'))"

definition deep_copy :: "matrix \<Rightarrow> js \<Rightarrow> matrix \<times> js" where
  "deep_copy state s = alloc_rows (map (\<lambda>r. map json_val (heap s r)) state) s"

text \<open>The argument of \<open>emitChanged\<close>: a \<open>cells-changed\<close> of the body region at origin (0, 0).\<close>

datatype change = CellsChanged (rowSpan: nat) (columnSpan: nat)

text \<open>
  The private fields of a \<open>Model\<close> (\<open>_interval\<close>, \<open>_tick\<close>, \<open>_data\<close>, \<open>_swap\<close>,
  \<open>_started\<close>), together with what the object touches outside itself: the JavaScript
  runtime \<open>rt\<close>, the interval timers of \<open>window\<close> and the changes emitted so far.
  An active timer is its handle paired with the variable \<open>swap\<close> that its callback
  closes over. \<open>window.setInterval\<close> returns a positive handle never issued before
  (here the successor of \<open>last_handle\<close>), and after \<open>window.clearInterval\<close> the callback
  of that handle is not run again. \<open>_started\<close> is \<open>undefined\<close> in a new object and 0
  after \<open>stop\<close>; both are falsy and both are 0 here.
\<close>

record world =
  rt :: js
  m_interval :: nat
  m_tick :: "matrix \<Rightarrow> matrix \<Rightarrow> real option \<Rightarrow> js \<Rightarrow> (error + unit) \<times> js"
  m_data :: matrix
  m_swap :: matrix
  m_started :: nat
  timers :: "(nat \<times> bool) list"
  last_handle :: nat
  emitted :: "change list"

definition clearInterval :: "nat \<Rightarrow> world \<Rightarrow> world" where
  "clearInterval h w = w\<lparr>timers := filter (\<lambda>(k, _). k \<noteq> h) (timers w)\<rparr>"

definition stop :: "world \<Rightarrow> world" where
  "stop w = (if m_started w \<noteq> 0 then (clearInterval (m_started w) w)\<lparr>m_started := 0\<rparr> else w)"

text \<open>The setter of \<open>state\<close>. No statement of it can throw.\<close>

definition set_state :: "matrix \<Rightarrow> world \<Rightarrow> (error + unit) \<times> world" where
  "set_state state w =
     (let w1 = (if m_started w \<noteq> 0 then stop w else w)
      in case deep_copy state (rt w1) of
           (copy, s') \<Rightarrow> (Inr (), w1\<lparr>m_data := state, m_swap := copy, rt := s'\<rparr>))"

definition get_state :: "world \<Rightarrow> matrix" where
  "get_state w = m_data w"

record options =
  initial :: "matrix option"
  interval :: "nat option"
  tick_opt :: "(matrix \<Rightarrow> matrix \<Rightarrow> real option \<Rightarrow> js \<Rightarrow> (error + unit) \<times> js) option"

text \<open>
  The constructor, run in a window with no timer yet. \<open>options.interval || INTERVAL\<close>
  takes the default also for 0; an array is truthy even when empty.
\<close>

definition constructor :: "options \<Rightarrow> js \<Rightarrow> world" where
  "constructor opts s =
     (let iv = (case interval opts of None \<Rightarrow> INTERVAL | Some n \<Rightarrow> if n = 0 then INTERVAL else n);
          tk = (case tick_opt opts of None \<Rightarrow> tick | Some f \<Rightarrow> f)
      in case (case initial opts of
                 Some m \<Rightarrow> (m, s)
               | None \<Rightarrow> random_world ROWS COLUMNS LIKELIHOOD s) of
           (state, s1) \<Rightarrow>
             snd (set_state state
                    \<lparr>rt = s1, m_interval = iv, m_tick = tk, m_data = [], m_swap = [],
                     m_started = 0, timers = [], last_handle = 0, emitted = []\<rparr>))"

definition rowCount :: "world \<Rightarrow> nat" where
  "rowCount w = length (m_data w)"

definition columnCount :: "world \<Rightarrow> error + nat" where
  "columnCount w =
     (case row_of (m_data w) 0 of
        None \<Rightarrow> Inl TypeError
      | Some r \<Rightarrow> Inr (length (heap (rt w) r)))"

text \<open>
  \<open>data(region, row, column)\<close> returns \<open>this._data[row][column]\<close>. An index that is not
  a position of the array reads \<open>undefined\<close>; only reading a property of \<open>undefined\<close>
  throws.
\<close>

definition data :: "world \<Rightarrow> int \<Rightarrow> int \<Rightarrow> error + jsval" where
  "data w row column =
     (if 0 \<le> row \<and> row < int (length (m_data w))
      then (let xs = heap (rt w) (m_data w ! nat row)
            in if 0 \<le> column \<and> column < int (length xs)
               then Inr (xs ! nat column) else Inr Undefined)
      else Inl TypeError)"

text \<open>\<open>start\<close>: the new timer's closure starts with \<open>swap = false\<close>.\<close>

definition start :: "world \<Rightarrow> world" where
  "start w =
     (let w1 = (if m_started w \<noteq> 0 then stop w else w);
          h = last_handle w1 + 1
      in w1\<lparr>m_started := h, timers := timers w1 @ [(h, False)], last_handle := h\<rparr>)"

text \<open>
  The interval callback, given the current value of its variable \<open>swap\<close>; it returns the
  new value. \<open>this._tick\<close> is called with two arguments.
\<close>

definition on_interval :: "bool \<Rightarrow> world \<Rightarrow> bool \<times> (error + unit) \<times> world" where
  "on_interval swap w =
     (let swap' = (\<not> swap);
          w1 = (if swap' then w\<lparr>m_data := m_swap w, m_swap := m_data w\<rparr> else w)
      in case m_tick w1 (m_swap w1) (m_data w1) None (rt w1) of
           (r, s') \<Rightarrow>
             (let w2 = w1\<lparr>rt := s'\<rparr>
              in case r of
                   Inl e \<Rightarrow> (swap', Inl e, w2)
                 | Inr _ \<Rightarrow>
                     (case row_of (m_data w2) 0 of
                        None \<Rightarrow> (swap', Inl TypeError, w2)
                      | Some r0 \<Rightarrow>
                          (swap', Inr (),
                           w2\<lparr>emitted := emitted w2 @
                                 [CellsChanged (length (m_data w2)) (length (heap (rt w2) r0))]\<rparr>))))"

text \<open>
  The window runs the callback of timer \<open>h\<close>. A handle that is not active has no callback
  to run. An exception of the callback does not cancel the timer.
\<close>

definition fire :: "nat \<Rightarrow> world \<Rightarrow> (error + unit) \<times> world" where
  "fire h w =
     (case map_of (timers w) h of
        None \<Rightarrow> (Inr (), w)
      | Some swap \<Rightarrow>
          (case on_interval swap w of
             (swap', r, w') \<Rightarrow>
               (r, w'\<lparr>timers := map (\<lambda>(k, b). if k = h then (k, swap') else (k, b)) (timers w')\<rparr>)))"

text \<open>
  What can happen to a model: its owner creates a row array, assigns \<open>state\<close>, calls
  \<open>start\<close> or \<open>stop\<close>, or the window fires a timer.
\<close>

datatype op = Alloc "jsval list" | Assign matrix | Start | Stop | Fire nat

fun exec :: "op \<Rightarrow> world \<Rightarrow> world" where
  "exec (Alloc xs) w =
     w\<lparr>rt := (rt w)\<lparr>heap := (heap (rt w))(next_ref (rt w) := xs), next_ref := next_ref (rt w) + 1\<rparr>\<rparr>"
| "exec (Assign m) w = snd (set_state m w)"
| "exec Start w = start w"
| "exec Stop w = stop w"
| "exec (Fire h) w = snd (fire h w)"

fun run :: "op list \<Rightarrow> world \<Rightarrow> world" where
  "run [] w = w"
| "run (x # xs) w = run xs (exec x w)"


section \<open>What \<open>tick\<close> computes, as expressions\<close>

text \<open>
  The expressions of the loop body of \<open>tick\<close> over a heap in which every row index is in
  range: the element read by \<open>input[a][b]\<close>, the wrapped indices \<open>decX\<close>, \<open>decY\<close>,
  \<open>incX\<close>, \<open>incY\<close>, the sum \<open>neighbors\<close>, the value of \<open>cell\<close> after the conditional
  chain, and its value after the fluctuation test when \<open>Math.random()\<close> returns \<open>rnd k\<close>.
\<close>

definition cell_at :: "(ref \<Rightarrow> jsval list) \<Rightarrow> matrix \<Rightarrow> nat \<Rightarrow> nat \<Rightarrow> jsval" where
  "cell_at h m a b = elem (h (m ! a)) b"

definition decr :: "nat \<Rightarrow> nat \<Rightarrow> nat" where
  "decr l i = (if i \<ge> 1 then i - 1 else l)"

definition incr :: "nat \<Rightarrow> nat \<Rightarrow> nat" where
  "incr l i = (if i + 1 \<le> l then i + 1 else 0)"

definition neighbor_sum :: "(ref \<Rightarrow> jsval list) \<Rightarrow> matrix \<Rightarrow> nat \<Rightarrow> nat \<Rightarrow> nat \<Rightarrow> nat \<Rightarrow> number" where
  "neighbor_sum h input lastRow lastCol i j =
     add (add (add (add (add (add (add
       (to_number (cell_at h input (decr lastRow i) (decr lastCol j)))
       (to_number (cell_at h input i (decr lastCol j))))
       (to_number (cell_at h input (incr lastRow i) (decr lastCol j))))
       (to_number (cell_at h input (decr lastRow i) j)))
       (to_number (cell_at h input (incr lastRow i) j)))
       (to_number (cell_at h input (decr lastRow i) (incr lastCol j))))
       (to_number (cell_at h input i (incr lastCol j))))
       (to_number (cell_at h input (incr lastRow i) (incr lastCol j)))"

definition next_cell :: "(ref \<Rightarrow> jsval list) \<Rightarrow> matrix \<Rightarrow> nat \<Rightarrow> nat \<Rightarrow> nat \<Rightarrow> nat \<Rightarrow> nat" where
  "next_cell h input lastRow lastCol i j =
     rule (cell_at h input i j) (neighbor_sum h input lastRow lastCol i j)"

definition written :: "real \<Rightarrow> (nat \<Rightarrow> real) \<Rightarrow> nat \<Rightarrow> nat \<Rightarrow> nat" where
  "written fl rnd k c = (if fl \<noteq> 0 \<and> rnd k < fl then 1 - c else c)"


section \<open>The specification's vocabulary\<close>

text \<open>
  A generation of the specification: a rectangular matrix of \<open>R\<close> rows and \<open>C\<close> columns,
  both at least 1, of cells that are 0 or 1. \<open>rect\<close> is the shape alone. The canonical rule
  of the specification: the neighbours of a cell are reached by wrapping the row index
  modulo \<open>R\<close> and the column index modulo \<open>C\<close>; a cell is alive in the next generation
  when it is alive with 2 or 3 live neighbours, or dead with exactly 3.
\<close>

definition rect :: "(ref \<Rightarrow> jsval list) \<Rightarrow> matrix \<Rightarrow> nat \<Rightarrow> nat \<Rightarrow> bool" where
  "rect h m R C = (length m = R \<and> (\<forall>r\<in>set m. length (h r) = C))"

definition is_bit :: "jsval \<Rightarrow> bool" where
  "is_bit v = (v = Num 0 \<or> v = Num 1)"

definition generation :: "(ref \<Rightarrow> jsval list) \<Rightarrow> matrix \<Rightarrow> nat \<Rightarrow> nat \<Rightarrow> bool" where
  "generation h m R C =
     (0 < R \<and> 0 < C \<and> rect h m R C \<and> (\<forall>r\<in>set m. \<forall>v\<in>set (h r). is_bit v))"

definition alive :: "(ref \<Rightarrow> jsval list) \<Rightarrow> matrix \<Rightarrow> nat \<Rightarrow> nat \<Rightarrow> bool" where
  "alive h m i j = (h (m ! i) ! j = Num 1)"

definition bit_at :: "(ref \<Rightarrow> jsval list) \<Rightarrow> matrix \<Rightarrow> nat \<Rightarrow> nat \<Rightarrow> nat" where
  "bit_at h m i j = (if alive h m i j then 1 else 0)"

definition wrap_dec :: "nat \<Rightarrow> nat \<Rightarrow> nat" where
  "wrap_dec n i = (i + n - 1) mod n"

definition wrap_inc :: "nat \<Rightarrow> nat \<Rightarrow> nat" where
  "wrap_inc n i = (i + 1) mod n"

definition toroidal_count :: "(ref \<Rightarrow> jsval list) \<Rightarrow> matrix \<Rightarrow> nat \<Rightarrow> nat \<Rightarrow> nat \<Rightarrow> nat \<Rightarrow> nat" where
  "toroidal_count h m R C i j =
     bit_at h m (wrap_dec R i) (wrap_dec C j) + bit_at h m i (wrap_dec C j) +
     bit_at h m (wrap_inc R i) (wrap_dec C j) + bit_at h m (wrap_dec R i) j +
     bit_at h m (wrap_inc R i) j + bit_at h m (wrap_dec R i) (wrap_inc C j) +
     bit_at h m i (wrap_inc C j) + bit_at h m (wrap_inc R i) (wrap_inc C j)"

definition conway :: "bool \<Rightarrow> nat \<Rightarrow> bool" where
  "conway a n = ((a \<and> (n = 2 \<or> n = 3)) \<or> (\<not> a \<and> n = 3))"


section \<open>Examples\<close>

text \<open>
  A runtime holding the 2 by 3 generation \<open>[[1, 0, 0], [0, 1, 0]]\<close> in rows 0 and 1 and a
  buffer of the same shape in rows 2 and 3; \<open>Math.random()\<close> always returns 0.
\<close>

definition example_rt :: js where
  "example_rt =
     \<lparr>heap = (\<lambda>_. [])(0 := [Num 1, Num 0, Num 0], 1 := [Num 0, Num 1, Num 0],
                       2 := [Num 0, Num 0, Num 0], 3 := [Num 0, Num 0, Num 0]),
      next_ref = 4, random = (\<lambda>_. 0), drawn = 0\<rparr>"

text \<open>
  A model constructed on the example generation with the default \<open>tick\<close>, and the same
  model after its owner has created the rows \<open>[1, 1]\<close> and \<open>[1]\<close> of a jagged matrix.
\<close>

definition example_world :: world where
  "example_world = constructor \<lparr>initial = Some [0, 1], interval = None, tick_opt = None\<rparr> example_rt"

definition jagged_world :: world where
  "jagged_world = run [Alloc [Num 1, Num 1], Alloc [Num 1]] example_world"

section \<open>Invariants of a model\<close>

text \<open>
  The timer discipline of a model: the window holds no timer when \<open>_started\<close> is 0 and
  exactly the timer \<open>_started\<close> otherwise, and \<open>_started\<close> is a handle that was issued.
\<close>

definition timers_ok :: "world \<Rightarrow> bool" where
  "timers_ok w =
     (map fst (timers w) = (if m_started w = 0 then [] else [m_started w]) \<and>
      m_started w \<le> last_handle w)"









section \<open>Examples of runs\<close>

text \<open>
  The model constructed on the 1 by 3 generation \<open>[[1, 0, 0]]\<close>, whose next generations
  are \<open>[[1, 1, 1]]\<close> and then \<open>[[0, 0, 0]]\<close>; its runtime after construction and after the
  first tick. The runtime of \<open>jagged_world\<close> after the jagged matrix has been assigned.
\<close>

definition blinker_world :: world where
  "blinker_world = constructor \<lparr>initial = Some [0], interval = None, tick_opt = None\<rparr> example_rt"

definition blinker_rt :: js where
  "blinker_rt = example_rt\<lparr>heap := (heap example_rt)(4 := [Num 1, Num 0, Num 0]), next_ref := 5\<rparr>"

definition blinker_rt1 :: js where
  "blinker_rt1 = blinker_rt\<lparr>heap := (heap blinker_rt)(4 := [Num 1, Num 1, Num 1])\<rparr>"


section \<open>The loop body and the loops of \<open>tick\<close>\<close>

lemma get2_in_range: "a < length m \<Longrightarrow> get2 h m a b = Inr (cell_at h m a b)"
  by (simp add: get2_def row_of_def cell_at_def)

lemma decr_less: "i < n \<Longrightarrow> l < n \<Longrightarrow> decr l i < n"
  by (auto simp add: decr_def)

lemma incr_less: "i < n \<Longrightarrow> l < n \<Longrightarrow> incr l i < n"
  by (simp add: incr_def)

lemma neighbors_of_in_range:
  assumes "i < length input" "lastRow < length input"
  shows "neighbors_of (heap s) input i j (decr lastRow i) (decr lastCol j) (incr lastRow i) (incr lastCol j)
         = Inr (neighbor_sum (heap s) input lastRow lastCol i j)"
  using assms
  by (simp add: neighbors_of_def bind_def get2_in_range decr_less incr_less neighbor_sum_def)

lemma tick_cell_eq:
  assumes "i < length input" "lastRow < length input" "i < length output"
  shows "tick_cell input output fl lastRow lastCol i j s =
     (Inr (), s\<lparr>heap := (heap s)(output ! i := array_set (heap s (output ! i)) j
                   (Num (written fl (random s) (drawn s) (next_cell (heap s) input lastRow lastCol i j)))),
               drawn := drawn s + (if fl \<noteq> 0 then 1 else 0)\<rparr>)"
proof -
  have n: "neighbors_of (heap s) input i j (if 1 \<le> i then i - 1 else lastRow)
             (if 1 \<le> j then j - 1 else lastCol) (if i + 1 \<le> lastRow then i + 1 else 0)
             (if j + 1 \<le> lastCol then j + 1 else 0)
           = Inr (neighbor_sum (heap s) input lastRow lastCol i j)"
    using neighbors_of_in_range[OF assms(1,2), of s j lastCol] by (simp only: decr_def incr_def)
  show ?thesis
    unfolding tick_cell_def Let_def
    by (simp only: get2_in_range[OF assms(1)] n)
       (simp add: fluctuate_def put2_def row_of_def assms(3) written_def next_cell_def)
qed

lemma array_set_in_range: "j < length xs \<Longrightarrow> array_set xs j v = xs[j := v]"
  by (simp add: array_set_def)

lemma cell_at_frame:
  "\<forall>r\<in>set m. h' r = h r \<Longrightarrow> a < length m \<Longrightarrow> cell_at h' m a b = cell_at h m a b"
  by (simp add: cell_at_def)

lemma next_cell_frame:
  assumes "\<forall>r\<in>set input. h' r = h r" "i < length input" "lastRow < length input"
  shows "next_cell h' input lastRow lastCol i j = next_cell h input lastRow lastCol i j"
proof -
  have "cell_at h' input a b = cell_at h input a b" if "a < length input" for a b
    using assms(1) that by (simp add: cell_at_def)
  then show ?thesis
    using assms(2,3) by (simp add: next_cell_def neighbor_sum_def decr_less incr_less)
qed

lemma tick_cols_spec:
  assumes "i < length input" "lastRow < length input" "i < length output"
          "output ! i \<notin> set input" "length (heap s (output ! i)) = columns"
  shows "\<exists>s'. tick_cols input output fl columns lastRow lastCol i j0 s = (Inr (), s') \<and>
           (\<forall>r. r \<noteq> output ! i \<longrightarrow> heap s' r = heap s r) \<and>
           length (heap s' (output ! i)) = columns \<and>
           (\<forall>j<j0. heap s' (output ! i) ! j = heap s (output ! i) ! j) \<and>
           (\<forall>j. j0 \<le> j \<and> j < columns \<longrightarrow>
                heap s' (output ! i) ! j =
                  Num (written fl (random s) (drawn s + (if fl \<noteq> 0 then j - j0 else 0))
                         (next_cell (heap s) input lastRow lastCol i j))) \<and>
           drawn s' = drawn s + (if fl \<noteq> 0 then columns - j0 else 0) \<and>
           random s' = random s \<and> next_ref s' = next_ref s"
  using assms
proof (induction input "output" fl columns lastRow lastCol i j0 s rule: tick_cols.induct)
  case (1 input "output" fl columns lastRow lastCol i j s)
  let ?r = "output ! i"
  show ?case
  proof (cases "j < columns")
    case False
    then show ?thesis using "1.prems"(5) by (subst tick_cols.simps) auto
  next
    case True
    define c where "c = written fl (random s) (drawn s) (next_cell (heap s) input lastRow lastCol i j)"
    define s1 where "s1 = s\<lparr>heap := (heap s)(?r := (heap s ?r)[j := Num c]),
                              drawn := drawn s + (if fl \<noteq> 0 then 1 else 0)\<rparr>"
    have step: "tick_cell input output fl lastRow lastCol i j s = (Inr (), s1)"
      using tick_cell_eq[OF "1.prems"(1,2,3), of fl lastCol j s] True "1.prems"(5)
      by (simp add: array_set_in_range s1_def c_def)
    have len1: "length (heap s1 ?r) = columns"
      using "1.prems"(5) by (simp add: s1_def)
    from "1.IH"[OF True step[symmetric] refl "1.prems"(1,2,3,4) len1]
    obtain s' where
      run: "tick_cols input output fl columns lastRow lastCol i (j + 1) s1 = (Inr (), s')" and
      fr: "\<forall>r. r \<noteq> ?r \<longrightarrow> heap s' r = heap s1 r" and
      len: "length (heap s' ?r) = columns" and
      low: "\<forall>k<j + 1. heap s' ?r ! k = heap s1 ?r ! k" and
      high: "\<forall>k. j + 1 \<le> k \<and> k < columns \<longrightarrow>
                heap s' ?r ! k =
                  Num (written fl (random s1) (drawn s1 + (if fl \<noteq> 0 then k - (j + 1) else 0))
                         (next_cell (heap s1) input lastRow lastCol i k))" and
      dr: "drawn s' = drawn s1 + (if fl \<noteq> 0 then columns - (j + 1) else 0)" and
      rn: "random s' = random s1" and nr: "next_ref s' = next_ref s1"
      by blast
    have inp: "\<forall>r\<in>set input. heap s1 r = heap s r"
      using "1.prems"(4) by (auto simp: s1_def)
    have nc: "next_cell (heap s1) input lastRow lastCol i k = next_cell (heap s) input lastRow lastCol i k" for k
      by (rule next_cell_frame[OF inp "1.prems"(1,2)])
    have eq: "tick_cols input output fl columns lastRow lastCol i j s = (Inr (), s')"
      using run by (subst tick_cols.simps) (simp add: True step)
    have a: "\<forall>r. r \<noteq> ?r \<longrightarrow> heap s' r = heap s r"
      using fr by (simp add: s1_def)
    have b: "\<forall>k<j. heap s' ?r ! k = heap s ?r ! k"
      using low by (simp add: s1_def)
    have cc: "heap s' ?r ! k =
                  Num (written fl (random s) (drawn s + (if fl \<noteq> 0 then k - j else 0))
                         (next_cell (heap s) input lastRow lastCol i k))"
      if k: "j \<le> k" "k < columns" for k
    proof (cases "k = j")
      case True
      have "heap s' ?r ! j = heap s1 ?r ! j" using low by simp
      also have "\<dots> = Num c" using \<open>j < columns\<close> "1.prems"(5) by (simp add: s1_def)
      finally show ?thesis using True by (simp add: c_def)
    next
      case False
      then have k1: "j + 1 \<le> k" using k by simp
      have "drawn s1 + (if fl \<noteq> 0 then k - (j + 1) else 0) = drawn s + (if fl \<noteq> 0 then k - j else 0)"
        using k1 by (auto simp add: s1_def)
      moreover have "random s1 = random s" by (simp add: s1_def)
      ultimately show ?thesis using high k1 k(2) nc by simp
    qed
    have d: "drawn s' = drawn s + (if fl \<noteq> 0 then columns - j else 0)"
      using dr True by (auto simp add: s1_def)
    have e: "random s' = random s" "next_ref s' = next_ref s"
      using rn nr by (simp_all add: s1_def)
    show ?thesis using eq a len b cc d e by blast
  qed
qed


lemma tick_rows_spec:
  assumes "length input = rows" "lastRow < rows" "length output = rows"
          "set input \<inter> set output = {}" "\<forall>r\<in>set output. length (heap s r) = columns"
  shows "\<exists>s'. tick_rows input output fl rows columns lastRow lastCol i0 s = (Inr (), s') \<and>
           (\<forall>r. r \<notin> set (drop i0 output) \<longrightarrow> heap s' r = heap s r) \<and>
           (\<forall>r. length (heap s' r) = length (heap s r)) \<and>
           (\<forall>i. i0 \<le> i \<and> i < rows \<longrightarrow>
              (\<exists>k. i \<le> k \<and> k < rows \<and> output ! k = output ! i \<and>
                 (\<forall>j<columns. heap s' (output ! i) ! j =
                    Num (written fl (random s)
                           (drawn s + (if fl \<noteq> 0 then (k - i0) * columns + j else 0))
                           (next_cell (heap s) input lastRow lastCol k j))))) \<and>
           drawn s' = drawn s + (if fl \<noteq> 0 then (rows - i0) * columns else 0) \<and>
           random s' = random s \<and> next_ref s' = next_ref s"
  using assms
proof (induction input "output" fl rows columns lastRow lastCol i0 s rule: tick_rows.induct)
  case (1 input "output" fl rows columns lastRow lastCol i0 s)
  show ?case
  proof (cases "i0 < rows")
    case False
    then show ?thesis by (subst tick_rows.simps) auto
  next
    case True
    let ?r = "output ! i0"
    have r_out: "?r \<in> set output" using True "1.prems"(3) by simp
    have r_in: "?r \<notin> set input" using r_out "1.prems"(4) by blast
    have len_r: "length (heap s ?r) = columns" using r_out "1.prems"(5) by blast
    from tick_cols_spec[of i0 input lastRow "output" s columns fl lastCol 0] True "1.prems"(1,2,3) r_in len_r
    obtain s1 where
      c_run: "tick_cols input output fl columns lastRow lastCol i0 0 s = (Inr (), s1)" and
      c_fr: "\<forall>r. r \<noteq> ?r \<longrightarrow> heap s1 r = heap s r" and
      c_len: "length (heap s1 ?r) = columns" and
      c_val: "\<forall>j. j < columns \<longrightarrow> heap s1 ?r ! j =
                  Num (written fl (random s) (drawn s + (if fl \<noteq> 0 then j else 0))
                         (next_cell (heap s) input lastRow lastCol i0 j))" and
      c_dr: "drawn s1 = drawn s + (if fl \<noteq> 0 then columns else 0)" and
      c_rn: "random s1 = random s" and c_nr: "next_ref s1 = next_ref s"
      by auto
    have lens1: "\<forall>r\<in>set output. length (heap s1 r) = columns"
      using c_fr c_len "1.prems"(5) by metis
    from "1.IH"[OF True c_run[symmetric] refl "1.prems"(1,2,3,4) lens1]
    obtain s' where
      run: "tick_rows input output fl rows columns lastRow lastCol (i0 + 1) s1 = (Inr (), s')" and
      fr: "\<forall>r. r \<notin> set (drop (i0 + 1) output) \<longrightarrow> heap s' r = heap s1 r" and
      len: "\<forall>r. length (heap s' r) = length (heap s1 r)" and
      val: "\<forall>i. i0 + 1 \<le> i \<and> i < rows \<longrightarrow>
              (\<exists>k. i \<le> k \<and> k < rows \<and> output ! k = output ! i \<and>
                 (\<forall>j<columns. heap s' (output ! i) ! j =
                    Num (written fl (random s1)
                           (drawn s1 + (if fl \<noteq> 0 then (k - (i0 + 1)) * columns + j else 0))
                           (next_cell (heap s1) input lastRow lastCol k j))))" and
      dr: "drawn s' = drawn s1 + (if fl \<noteq> 0 then (rows - (i0 + 1)) * columns else 0)" and
      rn: "random s' = random s1" and nr: "next_ref s' = next_ref s1"
      by blast
    have eq: "tick_rows input output fl rows columns lastRow lastCol i0 s = (Inr (), s')"
      using run by (subst tick_rows.simps) (simp add: True c_run)
    have dropeq: "drop i0 output = ?r # drop (i0 + 1) output"
      using True "1.prems"(3) by (simp add: Cons_nth_drop_Suc)
    have a: "\<forall>r. r \<notin> set (drop i0 output) \<longrightarrow> heap s' r = heap s r"
      using fr c_fr by (simp add: dropeq)
    have b: "\<forall>r. length (heap s' r) = length (heap s r)"
      using len c_fr c_len len_r by metis
    have inp: "\<forall>r\<in>set input. heap s1 r = heap s r"
      using c_fr r_in by metis
    have nc: "next_cell (heap s1) input lastRow lastCol k j = next_cell (heap s) input lastRow lastCol k j"
      if "k < rows" for k j
      using next_cell_frame[OF inp] that "1.prems"(1,2) by simp
    have later: "\<exists>k. i \<le> k \<and> k < rows \<and> output ! k = output ! i \<and>
                 (\<forall>j<columns. heap s' (output ! i) ! j =
                    Num (written fl (random s)
                           (drawn s + (if fl \<noteq> 0 then (k - i0) * columns + j else 0))
                           (next_cell (heap s) input lastRow lastCol k j)))"
      if i: "i0 + 1 \<le> i" "i < rows" for i
    proof -
      from val i obtain k where k: "i \<le> k" "k < rows" "output ! k = output ! i" and
        kv: "\<forall>j<columns. heap s' (output ! i) ! j =
                    Num (written fl (random s1)
                           (drawn s1 + (if fl \<noteq> 0 then (k - (i0 + 1)) * columns + j else 0))
                           (next_cell (heap s1) input lastRow lastCol k j))"
        by blast
      have "k - i0 = Suc (k - (i0 + 1))" using k(1) i(1) by simp
      then have "(k - i0) * columns = columns + (k - (i0 + 1)) * columns" by simp
      then have idx: "drawn s1 + (if fl \<noteq> 0 then (k - (i0 + 1)) * columns + j else 0)
                    = drawn s + (if fl \<noteq> 0 then (k - i0) * columns + j else 0)" for j
        using c_dr by simp
      show ?thesis
        using k kv by (auto simp: idx c_rn nc[OF k(2)] simp del: One_nat_def)
    qed
    have first: "\<exists>k. i0 \<le> k \<and> k < rows \<and> output ! k = ?r \<and>
                 (\<forall>j<columns. heap s' ?r ! j =
                    Num (written fl (random s)
                           (drawn s + (if fl \<noteq> 0 then (k - i0) * columns + j else 0))
                           (next_cell (heap s) input lastRow lastCol k j)))"
    proof (cases "?r \<in> set (drop (i0 + 1) output)")
      case True
      then obtain n where n: "n < length (drop (i0 + 1) output)" "drop (i0 + 1) output ! n = ?r"
        by (auto simp: in_set_conv_nth)
      let ?i = "i0 + 1 + n"
      have i: "i0 + 1 \<le> ?i" "?i < rows" "output ! ?i = ?r"
        using n "1.prems"(3) by auto
      from later[OF i(1,2)] obtain k where "?i \<le> k" "k < rows" "output ! k = output ! ?i"
        "\<forall>j<columns. heap s' (output ! ?i) ! j =
                    Num (written fl (random s)
                           (drawn s + (if fl \<noteq> 0 then (k - i0) * columns + j else 0))
                           (next_cell (heap s) input lastRow lastCol k j))"
        by blast
      then show ?thesis using i(3) by (intro exI[of _ k]) (simp del: One_nat_def)
    next
      case False
      then have "heap s' ?r = heap s1 ?r" using fr by blast
      then show ?thesis using c_val \<open>i0 < rows\<close> by (intro exI[of _ i0]) simp
    qed
    have c: "\<forall>i. i0 \<le> i \<and> i < rows \<longrightarrow>
              (\<exists>k. i \<le> k \<and> k < rows \<and> output ! k = output ! i \<and>
                 (\<forall>j<columns. heap s' (output ! i) ! j =
                    Num (written fl (random s)
                           (drawn s + (if fl \<noteq> 0 then (k - i0) * columns + j else 0))
                           (next_cell (heap s) input lastRow lastCol k j))))"
    proof (intro allI impI)
      fix i assume "i0 \<le> i \<and> i < rows"
      then consider "i = i0" | "i0 + 1 \<le> i" "i < rows" by fastforce
      then show "\<exists>k. i \<le> k \<and> k < rows \<and> output ! k = output ! i \<and>
                 (\<forall>j<columns. heap s' (output ! i) ! j =
                    Num (written fl (random s)
                           (drawn s + (if fl \<noteq> 0 then (k - i0) * columns + j else 0))
                           (next_cell (heap s) input lastRow lastCol k j)))"
      proof cases
        case 1 then show ?thesis using first by simp
      next
        case 2 then show ?thesis by (rule later)
      qed
    qed
    have "rows - i0 = Suc (rows - (i0 + 1))" using True by simp
    then have "(rows - i0) * columns = columns + (rows - (i0 + 1)) * columns" by simp
    then have d: "drawn s' = drawn s + (if fl \<noteq> 0 then (rows - i0) * columns else 0)"
      using dr c_dr by simp
    have e: "random s' = random s" "next_ref s' = next_ref s"
      using rn nr c_rn c_nr by simp_all
    show ?thesis using eq a b c d e by blast
  qed
qed

section \<open>\<open>tick\<close> on separate buffers\<close>

lemma decr_wrap: "i < n \<Longrightarrow> decr (n - 1) i = wrap_dec n i"
  by (cases i) (simp_all add: decr_def wrap_dec_def)

lemma incr_wrap: "i < n \<Longrightarrow> incr (n - 1) i = wrap_inc n i"
  by (auto simp: incr_def wrap_inc_def mod_Suc)

lemma wrap_less: "0 < n \<Longrightarrow> wrap_dec n i < n" "0 < n \<Longrightarrow> wrap_inc n i < n"
  by (simp_all add: wrap_dec_def wrap_inc_def)

lemma cell_at_bit:
  assumes "generation h m R C" "a < R" "b < C"
  shows "to_number (cell_at h m a b) = Some (bit_at h m a b)"
    and "truthy (cell_at h m a b) = alive h m a b"
proof -
  have r: "m ! a \<in> set m" "length (h (m ! a)) = C"
    using assms by (auto simp: generation_def rect_def)
  then have "h (m ! a) ! b \<in> set (h (m ! a))" using assms(3) by simp
  then have "is_bit (h (m ! a) ! b)" using assms(1) r(1) by (auto simp: generation_def)
  then show "to_number (cell_at h m a b) = Some (bit_at h m a b)"
    and "truthy (cell_at h m a b) = alive h m a b"
    using r(2) assms(3) by (auto simp: cell_at_def elem_def is_bit_def bit_at_def alive_def)
qed

lemma rule_conway: "rule v (Some n) = (if conway (truthy v) n then 1 else 0)"
  by (auto simp: rule_def conway_def lt_def gt_def eqq_def)

lemma next_cell_conway:
  assumes "generation h m R C" "i < R" "j < C"
  shows "next_cell h m (R - 1) (C - 1) i j =
           (if conway (alive h m i j) (toroidal_count h m R C i j) then 1 else 0)"
proof -
  have R: "0 < R" and C: "0 < C" using assms(1) by (simp_all add: generation_def)
  note b = cell_at_bit(1)[OF assms(1)]
  have idx: "decr (R - 1) i = wrap_dec R i" "incr (R - 1) i = wrap_inc R i"
            "decr (C - 1) j = wrap_dec C j" "incr (C - 1) j = wrap_inc C j"
    using assms(2,3) by (simp_all only: decr_wrap incr_wrap)
  have "neighbor_sum h m (R - 1) (C - 1) i j = Some (toroidal_count h m R C i j)"
    unfolding neighbor_sum_def toroidal_count_def idx
    using assms(2,3) R C by (simp add: b wrap_less add_def)
  then show ?thesis
    using cell_at_bit(2)[OF assms] by (simp add: next_cell_def rule_conway)
qed

lemma tick_spec:
  assumes "0 < R" "rect (heap s) input R C" "rect (heap s) output R C"
          "set input \<inter> set output = {}"
  shows "\<exists>s'. tick input output fluct s = (Inr (), s') \<and>
           (\<forall>r. r \<notin> set output \<longrightarrow> heap s' r = heap s r) \<and>
           (\<forall>r. length (heap s' r) = length (heap s r)) \<and>
           (\<forall>i<R. \<exists>k. i \<le> k \<and> k < R \<and> output ! k = output ! i \<and>
                 (\<forall>j<C. heap s' (output ! i) ! j =
                    Num (written (case fluct of None \<Rightarrow> 0 | Some f \<Rightarrow> f) (random s)
                           (drawn s + (if (case fluct of None \<Rightarrow> 0 | Some f \<Rightarrow> f) \<noteq> 0 then k * C + j else 0))
                           (next_cell (heap s) input (R - 1) (C - 1) k j)))) \<and>
           drawn s' = drawn s + (if (case fluct of None \<Rightarrow> 0 | Some f \<Rightarrow> f) \<noteq> 0 then R * C else 0) \<and>
           random s' = random s \<and> next_ref s' = next_ref s"
proof -
  let ?fl = "case fluct of None \<Rightarrow> 0 | Some f \<Rightarrow> f"
  have li: "length input = R" and lo: "length output = R"
    using assms(2,3) by (simp_all add: rect_def)
  have r0: "row_of input 0 = Some (input ! 0)" using li assms(1) by (simp add: row_of_def)
  have c0: "length (heap s (input ! 0)) = C"
    using assms(1,2) by (simp add: rect_def)
  have lens: "\<forall>r\<in>set output. length (heap s r) = C"
    using assms(3) by (simp add: rect_def)
  have unf: "tick input output fluct s = tick_rows input output ?fl R C (R - 1) (C - 1) 0 s"
    by (simp add: tick_def r0 c0 li)
  have lr: "R - 1 < R" using assms(1) by simp
  show ?thesis
    unfolding unf
    using tick_rows_spec[OF li lr lo assms(4) lens, of ?fl "C - 1" 0]
    by (simp only: drop_0 diff_zero le0 simp_thms)
qed

lemma example_generation: "generation (heap example_rt) [0, 1] 2 3"
  by (simp add: generation_def rect_def is_bit_def example_rt_def)

lemma example_buffer: "rect (heap example_rt) [2, 3] 2 3"
  by (simp add: rect_def example_rt_def)

lemma written_zero: "written 0 rnd k c = c"
  by (simp add: written_def)

lemma wrap_dec_zero: "0 < n \<Longrightarrow> wrap_dec n 0 = n - 1"
  by (simp add: wrap_dec_def)

text \<open>
  C1. On a generation of \<open>R\<close> by \<open>C\<close> bits and a separate buffer of the same shape,
  \<open>tick\<close> with fluctuation 0 (given or by default) returns, and the value it leaves at
  every cell \<open>(i, j)\<close> of the buffer is 1 exactly when the input cell is alive with 2 or 3
  live neighbours or dead with exactly 3, the neighbours being the eight cells reached by
  wrapping the indices modulo \<open>R\<close> and \<open>C\<close>; otherwise it is 0. In particular a live
  cell at \<open>(R - 1, C - 1)\<close> is counted as a neighbour of the cell at \<open>(0, 0)\<close>.
\<close>

theorem tick_conway:
  assumes "generation (heap s) input R C" "rect (heap s) output R C"
          "set input \<inter> set output = {}" "distinct output"
          "fluct = None \<or> fluct = Some 0"
  shows "\<exists>s'. tick input output fluct s = (Inr (), s') \<and>
           (\<forall>i<R. \<forall>j<C. heap s' (output ! i) ! j =
              Num (if conway (alive (heap s) input i j) (toroidal_count (heap s) input R C i j)
                   then 1 else 0)) \<and>
           (alive (heap s) input (R - 1) (C - 1) \<longrightarrow> 1 \<le> toroidal_count (heap s) input R C 0 0)"
proof -
  have R: "0 < R" and C: "0 < C" and ri: "rect (heap s) input R C"
    using assms(1) by (simp_all add: generation_def)
  have fl: "(case fluct of None \<Rightarrow> 0 | Some f \<Rightarrow> f) = 0"
    using assms(5) by auto
  from tick_spec[OF R ri assms(2,3), of fluct]
  obtain s' where run: "tick input output fluct s = (Inr (), s')" and
    val: "\<forall>i<R. \<exists>k. i \<le> k \<and> k < R \<and> output ! k = output ! i \<and>
             (\<forall>j<C. heap s' (output ! i) ! j =
                Num (next_cell (heap s) input (R - 1) (C - 1) k j))"
    unfolding fl by (auto simp: written_zero)
  have lo: "length output = R" using assms(2) by (simp add: rect_def)
  have cells: "heap s' (output ! i) ! j =
              Num (if conway (alive (heap s) input i j) (toroidal_count (heap s) input R C i j)
                   then 1 else 0)" if "i < R" "j < C" for i j
  proof -
    from val that obtain k where k: "k < R" "output ! k = output ! i" and
      v: "heap s' (output ! i) ! j = Num (next_cell (heap s) input (R - 1) (C - 1) k j)"
      by blast
    have "k = i" using k that(1) lo assms(4) by (simp add: nth_eq_iff_index_eq)
    then show ?thesis using v next_cell_conway[OF assms(1) that] by simp
  qed
  have "bit_at (heap s) input (R - 1) (C - 1) \<le> toroidal_count (heap s) input R C 0 0"
    using R C by (simp add: toroidal_count_def wrap_dec_zero)
  then have corner: "alive (heap s) input (R - 1) (C - 1) \<longrightarrow> 1 \<le> toroidal_count (heap s) input R C 0 0"
    by (simp add: bit_at_def split: if_splits)
  show ?thesis using run cells corner by blast
qed

theorem tick_conway_witness:
  "generation (heap example_rt) [0, 1] 2 3 \<and> rect (heap example_rt) [2, 3] 2 3 \<and>
   set [0, 1] \<inter> set [2, 3::nat] = {} \<and> distinct [2, 3::nat] \<and>
   (\<exists>s'. tick [0, 1] [2, 3] None example_rt = (Inr (), s') \<and>
      (\<forall>i<2. \<forall>j<3. heap s' ([2, 3] ! i) ! j =
         Num (if conway (alive (heap example_rt) [0, 1] i j)
                   (toroidal_count (heap example_rt) [0, 1] 2 3 i j) then 1 else 0)))"
proof -
  have d: "set [0, 1] \<inter> set [2, 3::nat] = {}" "distinct [2, 3::nat]" by simp_all
  from tick_conway[OF example_generation example_buffer d, of None]
  show ?thesis using example_generation example_buffer d by blast
qed

lemma rule_le_1: "rule v n \<le> 1"
  by (simp add: rule_def)

lemma written_le_1: "c \<le> 1 \<Longrightarrow> written fl rnd k c \<le> 1"
  by (simp add: written_def)

lemma is_bit_Num: "is_bit (Num c) = (c \<le> 1)"
  by (auto simp: is_bit_def)

lemma next_cell_le_1: "next_cell h m lr lc i j \<le> 1"
  unfolding next_cell_def by (rule rule_le_1)

lemma written_is_bit: "is_bit (Num (written fl rnd k (next_cell h m lr lc i j)))"
  unfolding is_bit_Num by (rule written_le_1[OF next_cell_le_1])

lemma written_one: "rnd k < 1 \<Longrightarrow> written 1 rnd k c = 1 - c"
  by (simp add: written_def)

text \<open>
  C9. On a rectangular input with at least one row and a buffer of the same shape that
  shares no row with it, \<open>tick\<close> returns for every fluctuation (absent, or any number,
  so also every number in [0, 1]); afterwards every row of the buffer has its length and
  holds 0 or 1 at every position, whatever it held before, and every row array outside
  the buffer, so every row of the input, is as it was.
\<close>

theorem tick_populates_output_only:
  assumes "0 < R" "rect (heap s) input R C" "rect (heap s) output R C"
          "set input \<inter> set output = {}"
  shows "\<exists>s'. tick input output fluct s = (Inr (), s') \<and>
           (\<forall>i<R. length (heap s' (output ! i)) = C \<and>
                    (\<forall>j<C. is_bit (heap s' (output ! i) ! j))) \<and>
           (\<forall>r\<in>set input. heap s' r = heap s r) \<and>
           (\<forall>r. r \<notin> set output \<longrightarrow> heap s' r = heap s r)"
proof -
  let ?fl = "case fluct of None \<Rightarrow> 0 | Some f \<Rightarrow> f"
  from tick_spec[OF assms, of fluct]
  obtain s' where run: "tick input output fluct s = (Inr (), s')" and
    fr: "\<forall>r. r \<notin> set output \<longrightarrow> heap s' r = heap s r" and
    len: "\<forall>r. length (heap s' r) = length (heap s r)" and
    val: "\<forall>i<R. \<exists>k. i \<le> k \<and> k < R \<and> output ! k = output ! i \<and>
             (\<forall>j<C. heap s' (output ! i) ! j =
                Num (written ?fl (random s) (drawn s + (if ?fl \<noteq> 0 then k * C + j else 0))
                       (next_cell (heap s) input (R - 1) (C - 1) k j)))"
    by blast
  have lo: "length output = R" and lens: "\<forall>r\<in>set output. length (heap s r) = C"
    using assms(3) by (simp_all add: rect_def)
  have a: "length (heap s' (output ! i)) = C" if "i < R" for i
    using len lens lo that by simp
  have b: "is_bit (heap s' (output ! i) ! j)" if "i < R" "j < C" for i j
  proof -
    from val that obtain k where
      "heap s' (output ! i) ! j =
         Num (written ?fl (random s) (drawn s + (if ?fl \<noteq> 0 then k * C + j else 0))
                (next_cell (heap s) input (R - 1) (C - 1) k j))"
      by blast
    then show ?thesis
      by (simp only: written_is_bit)
  qed
  have c: "\<forall>r\<in>set input. heap s' r = heap s r"
    using fr assms(4) by blast
  show ?thesis using run a b c fr by blast
qed

theorem tick_populates_output_only_witness:
  "(0::nat) < 2 \<and> rect (heap example_rt) [0, 1] 2 3 \<and> rect (heap example_rt) [2, 3] 2 3 \<and>
   set [0, 1] \<inter> set [2, 3::nat] = {} \<and>
   (\<exists>s'. tick [0, 1] [2, 3] (Some (1 / 2)) example_rt = (Inr (), s') \<and>
      (\<forall>i<2. length (heap s' ([2, 3] ! i)) = 3 \<and> (\<forall>j<3. is_bit (heap s' ([2, 3] ! i) ! j))) \<and>
      (\<forall>r\<in>set [0, 1]. heap s' r = heap example_rt r))"
proof -
  have h: "(0::nat) < 2" "rect (heap example_rt) [0, 1] 2 3" "rect (heap example_rt) [2, 3] 2 3"
          "set [0, 1] \<inter> set [2, 3::nat] = {}"
    by (simp_all add: rect_def example_rt_def)
  from tick_populates_output_only[OF h, of "Some (1 / 2)"]
  show ?thesis using h by blast
qed

text \<open>
  C8. On a rectangular input and a separate buffer of distinct rows, when every value
  \<open>Math.random()\<close> returns is below 1 (so that with fluctuation 1 every test
  \<open>Math.random() < fluctuation\<close> succeeds), \<open>tick\<close> returns with fluctuation 0 and with
  fluctuation 1, and at every cell of the buffer the second run leaves \<open>1 - c\<close> where the
  first leaves the bit \<open>c\<close>.
\<close>

theorem tick_fluctuation_one_complement:
  assumes "0 < R" "rect (heap s) input R C" "rect (heap s) output R C"
          "set input \<inter> set output = {}" "distinct output"
          "\<forall>n. random s n < 1" "fluct = None \<or> fluct = Some 0"
  shows "\<exists>s0 s1. tick input output fluct s = (Inr (), s0) \<and>
           tick input output (Some 1) s = (Inr (), s1) \<and>
           (\<forall>i<R. \<forall>j<C. \<exists>c\<le>1. heap s0 (output ! i) ! j = Num c \<and>
                                 heap s1 (output ! i) ! j = Num (1 - c))"
proof -
  have fl: "(case fluct of None \<Rightarrow> 0 | Some f \<Rightarrow> f) = 0"
    using assms(7) by auto
  have lo: "length output = R" using assms(3) by (simp add: rect_def)
  from tick_spec[OF assms(1-4), of fluct]
  obtain s0 where run0: "tick input output fluct s = (Inr (), s0)" and
    val0: "\<forall>i<R. \<exists>k. i \<le> k \<and> k < R \<and> output ! k = output ! i \<and>
             (\<forall>j<C. heap s0 (output ! i) ! j =
                Num (next_cell (heap s) input (R - 1) (C - 1) k j))"
    unfolding fl by (auto simp: written_def)
  from tick_spec[OF assms(1-4), of "Some 1"]
  obtain s1 where run1: "tick input output (Some 1) s = (Inr (), s1)" and
    val1: "\<forall>i<R. \<exists>k. i \<le> k \<and> k < R \<and> output ! k = output ! i \<and>
             (\<forall>j<C. heap s1 (output ! i) ! j =
                Num (1 - next_cell (heap s) input (R - 1) (C - 1) k j))"
    using assms(6) by (auto simp: written_one)
  have cells: "\<exists>c\<le>1. heap s0 (output ! i) ! j = Num c \<and> heap s1 (output ! i) ! j = Num (1 - c)"
    if "i < R" "j < C" for i j
  proof -
    from val0 that obtain k where k: "k < R" "output ! k = output ! i" and
      v0: "heap s0 (output ! i) ! j = Num (next_cell (heap s) input (R - 1) (C - 1) k j)"
      by blast
    have k0: "k = i" using k that(1) lo assms(5) by (simp add: nth_eq_iff_index_eq)
    from val1 that obtain k' where k': "k' < R" "output ! k' = output ! i" and
      v1: "heap s1 (output ! i) ! j = Num (1 - next_cell (heap s) input (R - 1) (C - 1) k' j)"
      by blast
    have k1: "k' = i" using k' that(1) lo assms(5) by (simp add: nth_eq_iff_index_eq)
    have "next_cell (heap s) input (R - 1) (C - 1) i j \<le> 1"
      by (rule next_cell_le_1)
    then show ?thesis using v0 v1 k0 k1 by blast
  qed
  show ?thesis using run0 run1 cells by blast
qed

theorem tick_fluctuation_one_complement_witness:
  "(0::nat) < 2 \<and> rect (heap example_rt) [0, 1] 2 3 \<and> rect (heap example_rt) [2, 3] 2 3 \<and>
   set [0, 1] \<inter> set [2, 3::nat] = {} \<and> distinct [2, 3::nat] \<and>
   (\<forall>n. random example_rt n < 1) \<and>
   (\<exists>s0 s1. tick [0, 1] [2, 3] None example_rt = (Inr (), s0) \<and>
           tick [0, 1] [2, 3] (Some 1) example_rt = (Inr (), s1) \<and>
           (\<forall>i<2. \<forall>j<3. \<exists>c\<le>1. heap s0 ([2, 3] ! i) ! j = Num c \<and>
                                 heap s1 ([2, 3] ! i) ! j = Num (1 - c)))"
proof -
  have h: "(0::nat) < 2" "rect (heap example_rt) [0, 1] 2 3" "rect (heap example_rt) [2, 3] 2 3"
          "set [0, 1] \<inter> set [2, 3::nat] = {}" "distinct [2, 3::nat]"
          "\<forall>n. random example_rt n < 1"
    by (simp_all add: rect_def example_rt_def)
  from tick_fluctuation_one_complement[OF h, of None]
  show ?thesis using h by blast
qed







section \<open>The setter of \<open>state\<close> and the reads\<close>

lemma alloc_rows_spec:
  "alloc_rows xss s = (m, s') \<Longrightarrow>
     m = [next_ref s ..< next_ref s + length xss] \<and>
     next_ref s' = next_ref s + length xss \<and>
     (\<forall>r. r < next_ref s \<longrightarrow> heap s' r = heap s r) \<and>
     map (heap s') m = xss \<and>
     random s' = random s \<and> drawn s' = drawn s"
proof (induction xss arbitrary: s m s')
  case Nil
  then show ?case by simp
next
  case (Cons xs xss)
  let ?s1 = "s\<lparr>heap := (heap s)(next_ref s := xs), next_ref := next_ref s + 1\<rparr>"
  obtain m1 s1 where r: "alloc_rows xss ?s1 = (m1, s1)"
    by (cases "alloc_rows xss ?s1")
  from Cons.prems r have m: "m = next_ref s # m1" and s': "s' = s1" by simp_all
  from Cons.IH[OF r] have
    m1: "m1 = [next_ref s + 1 ..< next_ref s + 1 + length xss]" and
    nr: "next_ref s1 = next_ref s + 1 + length xss" and
    fr: "\<forall>r. r < next_ref s + 1 \<longrightarrow> heap s1 r = heap ?s1 r" and
    mp: "map (heap s1) m1 = xss" and
    rd: "random s1 = random s" "drawn s1 = drawn s"
    by (auto simp del: upt_Suc)
  have a: "m = [next_ref s ..< next_ref s + length (xs # xss)]"
    using m m1 by (simp add: upt_conv_Cons del: upt_Suc)
  have b: "heap s1 (next_ref s) = xs" using fr by simp
  have c: "\<forall>r. r < next_ref s \<longrightarrow> heap s' r = heap s r" using fr s' by simp
  have d: "map (heap s') m = xs # xss" using m s' b mp by simp
  have e: "next_ref s' = next_ref s + length (xs # xss)" using nr s' by simp
  have f: "random s' = random s" "drawn s' = drawn s" using rd s' by simp_all
  show ?case using a e c d f by blast
qed

lemma deep_copy_spec:
  assumes "deep_copy state s = (m, s')"
  shows "m = [next_ref s ..< next_ref s + length state]"
    and "next_ref s' = next_ref s + length state"
    and "\<forall>r. r < next_ref s \<longrightarrow> heap s' r = heap s r"
    and "map (heap s') m = map (\<lambda>r. map json_val (heap s r)) state"
    and "random s' = random s" and "drawn s' = drawn s"
  using alloc_rows_spec[OF assms[unfolded deep_copy_def]] by (auto simp del: upt_Suc)

lemma json_val_id: "v \<noteq> Undefined \<Longrightarrow> json_val v = v"
  by (cases v) simp_all

lemma set_state_returns: "fst (set_state state w) = Inr ()"
  by (simp add: set_state_def Let_def split: prod.split)

lemma set_state_data: "m_data (snd (set_state state w)) = state"
  by (simp add: set_state_def Let_def split: prod.split)

lemma stop_fields:
  "rt (stop w) = rt w" "m_data (stop w) = m_data w" "m_swap (stop w) = m_swap w"
  "m_tick (stop w) = m_tick w" "last_handle (stop w) = last_handle w" "m_started (stop w) = 0"
  "emitted (stop w) = emitted w" "m_interval (stop w) = m_interval w"
  by (simp_all add: stop_def clearInterval_def)

lemma set_state_spec:
  assumes "set_state state w = (r, w')"
  shows "r = Inr ()" and "m_data w' = state"
    and "m_swap w' = [next_ref (rt w) ..< next_ref (rt w) + length state]"
    and "next_ref (rt w') = next_ref (rt w) + length state"
    and "\<forall>r. r < next_ref (rt w) \<longrightarrow> heap (rt w') r = heap (rt w) r"
    and "map (heap (rt w')) (m_swap w') = map (\<lambda>r. map json_val (heap (rt w) r)) state"
    and "m_started w' = 0" and "timers w' = timers (stop w)"
    and "m_tick w' = m_tick w" and "last_handle w' = last_handle w"
proof -
  let ?w1 = "if m_started w \<noteq> 0 then stop w else w"
  have rt1: "rt ?w1 = rt w" by (simp add: stop_fields)
  obtain m s' where dc: "deep_copy state (rt w) = (m, s')"
    by (cases "deep_copy state (rt w)")
  have w': "w' = ?w1\<lparr>m_data := state, m_swap := m, rt := s'\<rparr>" and r: "r = Inr ()"
    using assms dc rt1 by (simp_all add: set_state_def Let_def)
  note d = deep_copy_spec[OF dc]
  show "r = Inr ()" by (rule r)
  show "m_data w' = state" by (simp add: w')
  show "m_swap w' = [next_ref (rt w) ..< next_ref (rt w) + length state]"
    using d(1) by (simp add: w')
  show "next_ref (rt w') = next_ref (rt w) + length state" using d(2) by (simp add: w')
  show "\<forall>r. r < next_ref (rt w) \<longrightarrow> heap (rt w') r = heap (rt w) r" using d(3) by (simp add: w')
  show "map (heap (rt w')) (m_swap w') = map (\<lambda>r. map json_val (heap (rt w) r)) state"
    using d(4) by (simp add: w')
  show "m_started w' = 0" by (simp add: w' stop_fields)
  show "timers w' = timers (stop w)" by (simp add: w' stop_def)
  show "m_tick w' = m_tick w" by (simp add: w' stop_fields)
  show "last_handle w' = last_handle w" by (simp add: w' stop_fields)
qed

section \<open>Timers\<close>

lemma on_interval_frame:
  assumes "on_interval b w = (b', r, w')"
  shows "timers w' = timers w" "m_started w' = m_started w" "last_handle w' = last_handle w"
        "m_tick w' = m_tick w"
  using assms
  by (auto simp: on_interval_def Let_def split: prod.splits sum.splits option.splits if_splits)

lemma fire_frame:
  "map fst (timers (snd (fire h w))) = map fst (timers w)"
  "m_started (snd (fire h w)) = m_started w"
  "last_handle (snd (fire h w)) = last_handle w"
  "m_tick (snd (fire h w)) = m_tick w"
proof -
  show "map fst (timers (snd (fire h w))) = map fst (timers w)"
  proof (cases "map_of (timers w) h")
    case None
    then show ?thesis by (simp add: fire_def)
  next
    case (Some b)
    obtain b' r w' where oi: "on_interval b w = (b', r, w')" by (cases "on_interval b w") auto
    have "map fst (map (\<lambda>(k, c). if k = h then (k, b') else (k, c)) (timers w)) = map fst (timers w)"
      by (induction "timers w") (auto split: prod.splits)
    then show ?thesis using Some oi on_interval_frame(1)[OF oi] by (simp add: fire_def)
  qed
  show "m_started (snd (fire h w)) = m_started w"
    by (auto simp: fire_def split: option.splits prod.splits dest: on_interval_frame(2))
  show "last_handle (snd (fire h w)) = last_handle w"
    by (auto simp: fire_def split: option.splits prod.splits dest: on_interval_frame(3))
  show "m_tick (snd (fire h w)) = m_tick w"
    by (auto simp: fire_def split: option.splits prod.splits dest: on_interval_frame(4))
qed

lemma fire_inactive: "h \<notin> fst ` set (timers w) \<Longrightarrow> fire h w = (Inr (), w)"
proof -
  assume "h \<notin> fst ` set (timers w)"
  then have "map_of (timers w) h = None" by (simp add: map_of_eq_None_iff)
  then show ?thesis by (simp add: fire_def)
qed

lemma stop_timers_ok: "timers_ok w \<Longrightarrow> timers (stop w) = []"
  by (cases "timers w") (auto simp: timers_ok_def stop_def clearInterval_def split: if_splits)

lemma set_state_timers: "timers_ok w \<Longrightarrow> timers (snd (set_state state w)) = []"
  using set_state_spec(8)[of state w "fst (set_state state w)" "snd (set_state state w)"]
  by (simp add: stop_timers_ok)

lemma start_timers:
  "timers_ok w \<Longrightarrow> timers (start w) = [(last_handle w + 1, False)]"
  "m_started (start w) = last_handle w + 1" "last_handle (start w) = last_handle w + 1"
  by (auto simp: start_def Let_def stop_fields stop_timers_ok timers_ok_def)

lemma constructor_timers:
  "timers (constructor opts s) = []" "m_started (constructor opts s) = 0"
  "last_handle (constructor opts s) = 0"
proof -
  obtain st s1 where i: "(case initial opts of Some m \<Rightarrow> (m, s)
                          | None \<Rightarrow> random_world ROWS COLUMNS LIKELIHOOD s) = (st, s1)"
    by (cases "case initial opts of Some m \<Rightarrow> (m, s) | None \<Rightarrow> random_world ROWS COLUMNS LIKELIHOOD s")
  define w0 where "w0 = \<lparr>rt = s1,
      m_interval = (case interval opts of None \<Rightarrow> INTERVAL | Some n \<Rightarrow> if n = 0 then INTERVAL else n),
      m_tick = (case tick_opt opts of None \<Rightarrow> tick | Some f \<Rightarrow> f), m_data = [], m_swap = [],
      m_started = 0, timers = [], last_handle = 0, emitted = []\<rparr>"
  have c: "constructor opts s = snd (set_state st w0)"
    by (simp add: constructor_def Let_def i w0_def)
  have ok: "timers_ok w0" by (simp add: timers_ok_def w0_def)
  show "timers (constructor opts s) = []" using set_state_timers[OF ok] by (simp add: c)
  show "m_started (constructor opts s) = 0"
    using set_state_spec(7)[of st w0 "fst (set_state st w0)" "snd (set_state st w0)"] by (simp add: c)
  show "last_handle (constructor opts s) = 0"
    using set_state_spec(10)[of st w0 "fst (set_state st w0)" "snd (set_state st w0)"]
    by (simp add: c w0_def)
qed

lemma exec_timers_ok: "timers_ok w \<Longrightarrow> timers_ok (exec x w)"
proof (cases x)
  case (Alloc xs)
  then show "timers_ok w \<Longrightarrow> timers_ok (exec x w)" by (simp add: timers_ok_def)
next
  case (Assign m)
  assume ok: "timers_ok w"
  show "timers_ok (exec x w)"
    using set_state_timers[OF ok, of m]
          set_state_spec(7)[of m w "fst (set_state m w)" "snd (set_state m w)"]
    by (simp add: Assign timers_ok_def)
next
  case Start
  assume ok: "timers_ok w"
  show "timers_ok (exec x w)"
    using start_timers[of w] ok by (simp add: Start timers_ok_def)
next
  case Stop
  assume ok: "timers_ok w"
  show "timers_ok (exec x w)"
    using stop_timers_ok[OF ok] by (simp add: Stop timers_ok_def stop_fields)
next
  case (Fire h)
  assume ok: "timers_ok w"
  show "timers_ok (exec x w)"
    using ok by (simp add: Fire timers_ok_def fire_frame)
qed

lemma run_timers_ok: "timers_ok w \<Longrightarrow> timers_ok (run ops w)"
  by (induction ops arbitrary: w) (simp_all add: exec_timers_ok)

lemma reachable_timers_ok: "timers_ok (run ops (constructor opts s))"
  by (rule run_timers_ok) (simp add: timers_ok_def constructor_timers)

text \<open>Handles grow: once every active handle is above \<open>L\<close>, it stays so.\<close>

lemma exec_handles_above:
  assumes "timers_ok w" "L \<le> last_handle w" "\<forall>h\<in>set (map fst (timers w)). L < h"
  shows "L \<le> last_handle (exec x w) \<and> (\<forall>h\<in>set (map fst (timers (exec x w))). L < h)"
proof (cases x)
  case (Alloc xs)
  then show ?thesis using assms by simp
next
  case (Assign m)
  then show ?thesis
    using assms set_state_timers[OF assms(1), of m]
          set_state_spec(10)[of m w "fst (set_state m w)" "snd (set_state m w)"]
    by simp
next
  case Start
  then show ?thesis using assms start_timers[of w] by simp
next
  case Stop
  then show ?thesis using assms stop_timers_ok[OF assms(1)] by (simp add: stop_fields)
next
  case (Fire h)
  then show ?thesis using assms by (simp add: fire_frame del: set_map)
qed

lemma run_handles_above:
  "timers_ok w \<Longrightarrow> L \<le> last_handle w \<Longrightarrow> \<forall>h\<in>set (map fst (timers w)). L < h \<Longrightarrow>
   \<forall>h\<in>set (map fst (timers (run ops w))). L < h"
proof (induction ops arbitrary: w)
  case Nil
  then show ?case by simp
next
  case (Cons x ops)
  from exec_handles_above[OF Cons.prems, of x] exec_timers_ok[OF Cons.prems(1), of x]
  show ?case using Cons.IH[of "exec x w"] by simp
qed

lemma stale_never_fires:
  assumes "timers_ok w'" "L \<le> last_handle w'" "\<forall>h\<in>set (map fst (timers w')). L < h" "h \<le> L"
  shows "fire h (run ops w') = (Inr (), run ops w')"
proof -
  from run_handles_above[OF assms(1,2,3), of ops] assms(4)
  have "h \<notin> fst ` set (timers (run ops w'))" by fastforce
  then show ?thesis by (rule fire_inactive)
qed

lemma example_world_eq:
  "example_world =
     \<lparr>rt = example_rt\<lparr>heap := (heap example_rt)(4 := [Num 1, Num 0, Num 0], 5 := [Num 0, Num 1, Num 0]),
                       next_ref := 6\<rparr>,
      m_interval = 250, m_tick = tick, m_data = [0, 1], m_swap = [4, 5],
      m_started = 0, timers = [], last_handle = 0, emitted = []\<rparr>"
  by (simp add: example_world_def constructor_def set_state_def deep_copy_def INTERVAL_def
        example_rt_def Let_def)

lemma jagged_world_eq:
  "jagged_world =
     example_world\<lparr>rt := (rt example_world)\<lparr>heap := (heap (rt example_world))(6 := [Num 1, Num 1], 7 := [Num 1]),
                       next_ref := 8\<rparr>\<rparr>"
  by (simp add: jagged_world_def example_world_eq example_rt_def)


text \<open>
  C7. In every state \<open>w\<close> a model reaches from its construction, by any operations and
  with any \<open>tick\<close> function, the window holds at most one timer of the model. After
  \<open>stop\<close>, and after an assignment of \<open>state\<close>, it holds none; after \<open>start\<close> it holds
  only the timer just created. From each of these three states on, whatever happens
  next, firing a handle that had been issued before (\<open>h \<le> last_handle w\<close>) runs no
  callback: the state is left as it is.
\<close>

theorem one_timer_no_stale_tick:
  assumes "w = run ops (constructor opts s)"
  shows "length (timers w) \<le> 1 \<and>
         timers (stop w) = [] \<and>
         timers (snd (set_state m w)) = [] \<and>
         timers (start w) = [(last_handle w + 1, False)] \<and>
         (\<forall>w'\<in>{stop w, snd (set_state m w), start w}. \<forall>ops' h.
            h \<le> last_handle w \<longrightarrow> fire h (run ops' w') = (Inr (), run ops' w'))"
proof -
  have ok: "timers_ok w" unfolding assms by (rule reachable_timers_ok)
  have "length (map fst (timers w)) \<le> 1" using ok by (simp add: timers_ok_def del: length_map)
  then have a: "length (timers w) \<le> 1" by simp
  have b: "timers (stop w) = []" by (rule stop_timers_ok[OF ok])
  have c: "timers (snd (set_state m w)) = []" by (rule set_state_timers[OF ok])
  have d: "timers (start w) = [(last_handle w + 1, False)]" by (rule start_timers(1)[OF ok])
  have ok1: "timers_ok (stop w)" using exec_timers_ok[OF ok, of Stop] by simp
  have ok2: "timers_ok (snd (set_state m w))" using exec_timers_ok[OF ok, of "Assign m"] by simp
  have ok3: "timers_ok (start w)" using exec_timers_ok[OF ok, of Start] by simp
  have l2: "last_handle (snd (set_state m w)) = last_handle w"
    using set_state_spec(10)[of m w "fst (set_state m w)" "snd (set_state m w)"] by simp
  have e1: "fire h (run ops' (stop w)) = (Inr (), run ops' (stop w))"
    if "h \<le> last_handle w" for ops' h
    by (rule stale_never_fires[OF ok1 _ _ that]) (simp_all add: stop_fields b)
  have e2: "fire h (run ops' (snd (set_state m w))) = (Inr (), run ops' (snd (set_state m w)))"
    if "h \<le> last_handle w" for ops' h
    by (rule stale_never_fires[OF ok2 _ _ that]) (simp_all add: l2 c)
  have e3: "fire h (run ops' (start w)) = (Inr (), run ops' (start w))"
    if "h \<le> last_handle w" for ops' h
    by (rule stale_never_fires[OF ok3 _ _ that]) (simp_all add: start_timers(3) d)
  show ?thesis using a b c d e1 e2 e3 by simp
qed

theorem one_timer_no_stale_tick_witness:
  "timers (run [Start, Fire 1] example_world) = [(1, True)] \<and>
   timers (stop (run [Start, Fire 1] example_world)) = [] \<and>
   timers (start (run [Start, Fire 1] example_world)) = [(2, False)] \<and>
   fire 1 (run [Fire 1] (stop (run [Start, Fire 1] example_world))) =
     (Inr (), run [Fire 1] (stop (run [Start, Fire 1] example_world))) \<and>
   fire 1 (run [] (start (run [Start, Fire 1] example_world))) =
     (Inr (), run [] (start (run [Start, Fire 1] example_world)))"
proof -
  let ?w = "run [Start, Fire 1] example_world"
  have w: "?w = run [Start, Fire 1]
                  (constructor \<lparr>initial = Some [0, 1], interval = None, tick_opt = None\<rparr> example_rt)"
    by (simp only: example_world_def)
  have l: "last_handle ?w = 1"
    by (simp add: fire_frame start_timers(3) example_world_def constructor_timers)
  have t: "timers ?w = [(1, True)]"
    by (simp add: fire_def on_interval_def start_def Let_def example_world_eq
          split: prod.splits sum.splits option.splits)
  note inst = one_timer_no_stale_tick[OF w, where m = "[]"]
  have a: "timers (stop ?w) = []" and b: "timers (start ?w) = [(last_handle ?w + 1, False)]"
    using inst by blast+
  have e: "\<forall>w'\<in>{stop ?w, snd (set_state [] ?w), start ?w}. \<forall>ops' h.
            h \<le> last_handle ?w \<longrightarrow> fire h (run ops' w') = (Inr (), run ops' w')"
    using inst by blast
  have h: "(1::nat) \<le> last_handle ?w" by (simp only: l)
  have e1: "fire 1 (run [Fire 1] (stop ?w)) = (Inr (), run [Fire 1] (stop ?w))"
    using e h by blast
  have e2: "fire 1 (run [] (start ?w)) = (Inr (), run [] (start ?w))"
    using e h by blast
  have b': "timers (start ?w) = [(2, False)]" using b by (simp only: l) simp
  show ?thesis using t a b' e1 e2 by blast
qed

section \<open>Assigning \<open>state\<close> and reading cells\<close>

lemma set_state_swap_length: "length (m_swap (snd (set_state state w))) = length state"
  using set_state_spec(3)[of state w "fst (set_state state w)" "snd (set_state state w)"]
  by simp

text \<open>
  C3, as the code has it. The setter of \<open>state\<close> validates nothing: for every matrix,
  empty, jagged or rectangular, it returns normally, with the matrix installed as the
  current generation and a scratch buffer of as many rows.
\<close>

theorem set_state_accepts_every_matrix:
  "fst (set_state state w) = Inr () \<and>
   m_data (snd (set_state state w)) = state \<and>
   length (m_swap (snd (set_state state w))) = length state"
  by (simp add: set_state_returns set_state_data set_state_swap_length)

text \<open>
  C3 fails as stated: the jagged matrix of the rows \<open>[1, 1]\<close> and \<open>[1]\<close> and the empty
  matrix are both installed without an error.
\<close>

theorem set_state_jagged_counterexample:
  "length (heap (rt jagged_world) 6) \<noteq> length (heap (rt jagged_world) 7) \<and>
   fst (set_state [6, 7] jagged_world) = Inr () \<and>
   fst (set_state [6, 7] jagged_world) \<noteq> Inl DimensionMismatch \<and>
   m_data (snd (set_state [6, 7] jagged_world)) = [6, 7] \<and>
   fst (set_state [] jagged_world) = Inr ()"
  by (simp add: set_state_returns set_state_data jagged_world_eq)

lemma data_in_range:
  assumes "i < length (m_data w)" "j < length (heap (rt w) (m_data w ! i))"
  shows "data w (int i) (int j) = Inr (heap (rt w) (m_data w ! i) ! j)"
  using assms by (simp add: data_def Let_def)

text \<open>
  C4, as the code has it. When the current generation is rectangular with \<open>R \<ge> 1\<close> rows
  and \<open>C\<close> columns, \<open>rowCount\<close> is \<open>R\<close> and \<open>columnCount\<close> is \<open>C\<close>; a read at an
  in-range pair returns \<open>current[row][col]\<close>; a read with \<open>row\<close> outside \<open>[0, R)\<close> throws
  the runtime's \<open>TypeError\<close>; a read with \<open>row\<close> in range and \<open>col\<close> outside \<open>[0, C)\<close>
  does not fail and returns \<open>undefined\<close>.
\<close>

theorem data_reads:
  assumes "rect (heap (rt w)) (m_data w) R C" "0 < R"
  shows "rowCount w = R \<and> columnCount w = Inr C \<and>
         (\<forall>row col. 0 \<le> row \<and> row < int R \<and> 0 \<le> col \<and> col < int C \<longrightarrow>
            data w row col = Inr (heap (rt w) (m_data w ! nat row) ! nat col)) \<and>
         (\<forall>row col. row < 0 \<or> int R \<le> row \<longrightarrow> data w row col = Inl TypeError) \<and>
         (\<forall>row col. 0 \<le> row \<and> row < int R \<and> (col < 0 \<or> int C \<le> col) \<longrightarrow>
            data w row col = Inr Undefined)"
proof -
  have len: "length (m_data w) = R" and rows: "\<forall>r\<in>set (m_data w). length (heap (rt w) r) = C"
    using assms(1) by (simp_all add: rect_def)
  have rowlen: "length (heap (rt w) (m_data w ! nat row)) = C" if "0 \<le> row" "row < int R" for row
    using rows len that by simp
  have a: "rowCount w = R" by (simp add: rowCount_def len)
  have b: "columnCount w = Inr C"
    using rowlen[of 0] assms(2) len by (simp add: columnCount_def row_of_def)
  have c: "data w row col = Inr (heap (rt w) (m_data w ! nat row) ! nat col)"
    if "0 \<le> row \<and> row < int R \<and> 0 \<le> col \<and> col < int C" for row col
    using that rowlen[of row] by (simp add: data_def Let_def len)
  have d: "data w row col = Inl TypeError" if "row < 0 \<or> int R \<le> row" for row col
    using that by (auto simp: data_def len)
  have e: "data w row col = Inr Undefined"
    if "0 \<le> row \<and> row < int R \<and> (col < 0 \<or> int C \<le> col)" for row col
    using that rowlen[of row] by (auto simp: data_def Let_def len)
  show ?thesis using a b c d e by blast
qed

lemma example_world_rect: "rect (heap (rt example_world)) (m_data example_world) 2 3"
  by (simp add: rect_def example_world_eq example_rt_def)

theorem data_reads_witness:
  "rect (heap (rt example_world)) (m_data example_world) 2 3 \<and> (0::nat) < 2 \<and>
   rowCount example_world = 2 \<and> columnCount example_world = Inr 3 \<and>
   data example_world 1 1 = Inr (heap (rt example_world) (m_data example_world ! nat 1) ! nat 1) \<and>
   data example_world (- 1) 0 = Inl TypeError \<and>
   data example_world 1 3 = Inr Undefined"
proof -
  have h: "(0::nat) < 2" by simp
  from data_reads[OF example_world_rect h]
  show ?thesis using example_world_rect by simp
qed

text \<open>
  C4 fails as stated: with 2 rows and 3 columns, the read at column 3 of row 0 returns
  \<open>undefined\<close> without failing, and the read at row 2 throws \<open>TypeError\<close>.
\<close>

theorem data_out_of_bounds_counterexample:
  "rowCount example_world = 2 \<and> columnCount example_world = Inr 3 \<and>
   data example_world 0 3 = Inr Undefined \<and>
   data example_world 0 3 \<noteq> Inl IndexOutOfBounds \<and>
   data example_world 2 0 = Inl TypeError \<and>
   data example_world 2 0 \<noteq> Inl IndexOutOfBounds"
  by (simp add: rowCount_def columnCount_def row_of_def data_def example_world_eq example_rt_def)

lemma json_val_row: "Undefined \<notin> set xs \<Longrightarrow> map json_val xs = xs"
  by (induction xs) (auto simp: json_val_id)

text \<open>
  C6. Let a model that is running (\<open>_started\<close> holds a timer handle) in a state reached
  from its construction be assigned a matrix \<open>state\<close> of existing rows. The assignment
  returns with the model stopped and no timer left, so that firing any handle changes
  nothing; \<open>state\<close> is the current generation, its rows are as they were, and every
  in-range read returns the value of the replacement; the scratch buffer has as many
  rows, each a newly allocated array equal to the JSON copy of the corresponding row
  (the row itself when it holds no \<open>undefined\<close>), distinct from each other and from every
  row of \<open>state\<close>.
\<close>

theorem assign_while_running:
  assumes "w = run ops (constructor opts s)" "m_started w \<noteq> 0"
          "\<forall>r\<in>set state. r < next_ref (rt w)"
          "w' = snd (set_state state w)"
  shows "fst (set_state state w) = Inr () \<and>
         m_started w' = 0 \<and> timers w' = [] \<and> (\<forall>h. fire h w' = (Inr (), w')) \<and>
         m_data w' = state \<and> get_state w' = state \<and>
         (\<forall>r\<in>set state. heap (rt w') r = heap (rt w) r) \<and>
         (\<forall>i<length state. \<forall>j<length (heap (rt w) (state ! i)).
            data w' (int i) (int j) = Inr (heap (rt w) (state ! i) ! j)) \<and>
         length (m_swap w') = length state \<and>
         (\<forall>i<length state.
            heap (rt w') (m_swap w' ! i) = map json_val (heap (rt w) (state ! i)) \<and>
            (Undefined \<notin> set (heap (rt w) (state ! i)) \<longrightarrow>
               heap (rt w') (m_swap w' ! i) = heap (rt w) (state ! i))) \<and>
         set (m_swap w') \<inter> set state = {} \<and> distinct (m_swap w')"
proof -
  have ok: "timers_ok w" unfolding assms(1) by (rule reachable_timers_ok)
  have eq: "set_state state w = (fst (set_state state w), w')" by (simp add: assms(4))
  note sp = set_state_spec[OF eq]
  have t: "timers w' = []" using set_state_timers[OF ok, of state] by (simp add: assms(4))
  have f: "fire h w' = (Inr (), w')" for h by (rule fire_inactive) (simp add: t)
  have rows: "\<forall>r\<in>set state. heap (rt w') r = heap (rt w) r"
    using sp(5) assms(3) by simp
  have rd: "data w' (int i) (int j) = Inr (heap (rt w) (state ! i) ! j)"
    if "i < length state" "j < length (heap (rt w) (state ! i))" for i j
  proof -
    have "heap (rt w') (state ! i) = heap (rt w) (state ! i)" using rows that(1) by simp
    then show ?thesis using data_in_range[of i w' j] that by (simp add: sp(2))
  qed
  have ls: "length (m_swap w') = length state" by (simp add: sp(3))
  have cp: "heap (rt w') (m_swap w' ! i) = map json_val (heap (rt w) (state ! i))"
    if "i < length state" for i
  proof -
    have "map (heap (rt w')) (m_swap w') ! i = map (\<lambda>r. map json_val (heap (rt w) r)) state ! i"
      by (simp only: sp(6))
    then show ?thesis using that ls by simp
  qed
  have cp': "heap (rt w') (m_swap w' ! i) = heap (rt w) (state ! i)"
    if "i < length state" "Undefined \<notin> set (heap (rt w) (state ! i))" for i
    using cp[OF that(1)] json_val_row[OF that(2)] by simp
  have dj: "set (m_swap w') \<inter> set state = {}"
    using assms(3) by (auto simp: sp(3))
  have ds: "distinct (m_swap w')" by (simp add: sp(3))
  show ?thesis
    using sp(1) sp(7) t f sp(2) rows rd ls cp cp' dj ds by (simp add: get_state_def)
qed

lemma example_world_next_ref: "next_ref (rt (run [Start] example_world)) = 6"
  by (simp add: start_def Let_def example_world_eq)

theorem assign_while_running_witness:
  "m_started (run [Start] example_world) \<noteq> 0 \<and>
   1 < next_ref (rt (run [Start] example_world)) \<and>
   0 < next_ref (rt (run [Start] example_world)) \<and>
   m_started (snd (set_state [1, 0] (run [Start] example_world))) = 0 \<and>
   timers (snd (set_state [1, 0] (run [Start] example_world))) = [] \<and>
   m_data (snd (set_state [1, 0] (run [Start] example_world))) = [1, 0] \<and>
   set (m_swap (snd (set_state [1, 0] (run [Start] example_world)))) \<inter> set [1, 0] = {}"
proof -
  let ?w = "run [Start] example_world"
  have w: "?w = run [Start]
                  (constructor \<lparr>initial = Some [0, 1], interval = None, tick_opt = None\<rparr> example_rt)"
    by (simp only: example_world_def)
  have st: "m_started ?w \<noteq> 0" by (simp add: start_timers(2))
  have v: "\<forall>r\<in>set [1, 0]. r < next_ref (rt ?w)"
    by (simp only: example_world_next_ref) simp
  have n: "1 < next_ref (rt ?w)" "0 < next_ref (rt ?w)"
    by (simp_all only: example_world_next_ref)
  from assign_while_running[OF w st v refl]
  show ?thesis using st n by blast
qed

section \<open>The two buffers keep their dimensions\<close>




















section \<open>Ticks of the interval timer on examples\<close>

lemmas tick_eval = tick_def tick_rows.simps tick_cols.simps tick_cell_def get2_def row_of_def
  elem_def neighbors_of_def bind_def add_def rule_def lt_def gt_def eqq_def fluctuate_def
  put2_def array_set_def Let_def

lemma fire_step:
  assumes "map_of (timers w) h = Some b" "m_tick w = tick"
    "tick (if b then m_swap w else m_data w) (if b then m_data w else m_swap w) None (rt w) = (Inr (), s')"
    "(if b then m_data w else m_swap w) \<noteq> []"
  shows "m_data (snd (fire h w)) = (if b then m_data w else m_swap w)"
    and "m_swap (snd (fire h w)) = (if b then m_swap w else m_data w)"
    and "rt (snd (fire h w)) = s'"
    and "timers (snd (fire h w)) = map (\<lambda>(k, c). if k = h then (k, \<not> b) else (k, c)) (timers w)"
    and "m_tick (snd (fire h w)) = tick"
  using assms
  by (cases b; simp add: fire_def on_interval_def Let_def row_of_def neq_Nil_conv; fastforce)+

lemma blinker_world_eq:
  "blinker_world =
     \<lparr>rt = blinker_rt, m_interval = 250, m_tick = tick, m_data = [0], m_swap = [4],
      m_started = 0, timers = [], last_handle = 0, emitted = []\<rparr>"
  by (simp add: blinker_world_def blinker_rt_def constructor_def set_state_def deep_copy_def
        INTERVAL_def example_rt_def Let_def)

lemma blinker_tick1: "tick [0] [4] None blinker_rt = (Inr (), blinker_rt1)"
  by (simp add: tick_eval blinker_rt1_def blinker_rt_def example_rt_def
        cong: prod.case_cong_weak sum.case_cong_weak option.case_cong_weak)

lemma blinker_tick2: "tick [0] [4] None blinker_rt1 = (Inr (), blinker_rt1)"
  by (simp add: tick_eval blinker_rt1_def blinker_rt_def example_rt_def
        cong: prod.case_cong_weak sum.case_cong_weak option.case_cong_weak)

lemma blinker_tick3:
  "tick [4] [0] None blinker_rt1 =
     (Inr (), blinker_rt1\<lparr>heap := (heap blinker_rt1)(0 := [Num 0, Num 0, Num 0])\<rparr>)"
  by (simp add: tick_eval blinker_rt1_def blinker_rt_def example_rt_def
        cong: prod.case_cong_weak sum.case_cong_weak option.case_cong_weak)


lemma blinker_started:
  "timers (start blinker_world) = [(1, False)]" "m_tick (start blinker_world) = tick"
  "m_data (start blinker_world) = [0]" "m_swap (start blinker_world) = [4]"
  "rt (start blinker_world) = blinker_rt"
  by (simp_all add: start_def Let_def blinker_world_eq)

lemma blinker_first:
  "timers (run [Start, Fire 1] blinker_world) = [(1, True)]"
  "m_tick (run [Start, Fire 1] blinker_world) = tick"
  "m_data (run [Start, Fire 1] blinker_world) = [4]"
  "m_swap (run [Start, Fire 1] blinker_world) = [0]"
  "rt (run [Start, Fire 1] blinker_world) = blinker_rt1"
proof -
  have m: "map_of (timers (start blinker_world)) 1 = Some False"
    by (simp add: blinker_started)
  have t: "tick (if False then m_swap (start blinker_world) else m_data (start blinker_world))
             (if False then m_data (start blinker_world) else m_swap (start blinker_world)) None
             (rt (start blinker_world)) = (Inr (), blinker_rt1)"
    by (simp add: blinker_started blinker_tick1)
  have n: "(if False then m_data (start blinker_world) else m_swap (start blinker_world)) \<noteq> []"
    by (simp add: blinker_started)
  note f = fire_step[OF m blinker_started(2) t n]
  show "timers (run [Start, Fire 1] blinker_world) = [(1, True)]"
    using f(4) by (simp add: blinker_started)
  show "m_tick (run [Start, Fire 1] blinker_world) = tick" using f(5) by simp
  show "m_data (run [Start, Fire 1] blinker_world) = [4]" using f(1) by (simp add: blinker_started)
  show "m_swap (run [Start, Fire 1] blinker_world) = [0]" using f(2) by (simp add: blinker_started)
  show "rt (run [Start, Fire 1] blinker_world) = blinker_rt1" using f(3) by simp
qed

lemma blinker_second:
  "timers (run [Start, Fire 1, Fire 1] blinker_world) = [(1, False)]"
  "m_tick (run [Start, Fire 1, Fire 1] blinker_world) = tick"
  "m_data (run [Start, Fire 1, Fire 1] blinker_world) = [4]"
  "m_swap (run [Start, Fire 1, Fire 1] blinker_world) = [0]"
  "rt (run [Start, Fire 1, Fire 1] blinker_world) = blinker_rt1"
proof -
  let ?w = "run [Start, Fire 1] blinker_world"
  have r: "run [Start, Fire 1, Fire 1] blinker_world = snd (fire 1 ?w)" by simp
  have m: "map_of (timers ?w) 1 = Some True" by (simp only: blinker_first) simp
  have t: "tick (if True then m_swap ?w else m_data ?w)
             (if True then m_data ?w else m_swap ?w) None (rt ?w) = (Inr (), blinker_rt1)"
    by (simp only: blinker_first if_True blinker_tick2)
  have n: "(if True then m_data ?w else m_swap ?w) \<noteq> []"
    by (simp only: blinker_first if_True) simp
  note f = fire_step[OF m blinker_first(2) t n]
  show "timers (run [Start, Fire 1, Fire 1] blinker_world) = [(1, False)]"
    unfolding r using f(4) by (simp only: blinker_first) simp
  show "m_tick (run [Start, Fire 1, Fire 1] blinker_world) = tick"
    unfolding r by (rule f(5))
  show "m_data (run [Start, Fire 1, Fire 1] blinker_world) = [4]"
    unfolding r using f(1) by (simp only: blinker_first if_True)
  show "m_swap (run [Start, Fire 1, Fire 1] blinker_world) = [0]"
    unfolding r using f(2) by (simp only: blinker_first if_True)
  show "rt (run [Start, Fire 1, Fire 1] blinker_world) = blinker_rt1"
    unfolding r by (rule f(3))
qed

lemma blinker_third:
  "m_data (run [Start, Fire 1, Fire 1, Fire 1] blinker_world) = [0]"
  "rt (run [Start, Fire 1, Fire 1, Fire 1] blinker_world) =
     blinker_rt1\<lparr>heap := (heap blinker_rt1)(0 := [Num 0, Num 0, Num 0])\<rparr>"
proof -
  let ?w = "run [Start, Fire 1, Fire 1] blinker_world"
  have r: "run [Start, Fire 1, Fire 1, Fire 1] blinker_world = snd (fire 1 ?w)" by simp
  have m: "map_of (timers ?w) 1 = Some False" by (simp only: blinker_second) simp
  have t: "tick (if False then m_swap ?w else m_data ?w)
             (if False then m_data ?w else m_swap ?w) None (rt ?w) =
           (Inr (), blinker_rt1\<lparr>heap := (heap blinker_rt1)(0 := [Num 0, Num 0, Num 0])\<rparr>)"
    by (simp only: blinker_second if_False blinker_tick3)
  have n: "(if False then m_data ?w else m_swap ?w) \<noteq> []"
    by (simp only: blinker_second if_False) simp
  note f = fire_step[OF m blinker_second(2) t n]
  show "m_data (run [Start, Fire 1, Fire 1, Fire 1] blinker_world) = [0]"
    unfolding r using f(1) by (simp only: blinker_second if_False)
  show "rt (run [Start, Fire 1, Fire 1, Fire 1] blinker_world) =
     blinker_rt1\<lparr>heap := (heap blinker_rt1)(0 := [Num 0, Num 0, Num 0])\<rparr>"
    unfolding r by (rule f(3))
qed

text \<open>
  C2 on the code. The model is constructed on the generation \<open>[[1, 0, 0]]\<close> and started.
  After the first tick the current generation is \<open>[[1, 1, 1]]\<close>, the next generation of
  \<open>[[1, 0, 0]]\<close>. The step function applied to that current generation writes
  \<open>[[0, 0, 0]]\<close>; yet after the second tick the current generation is \<open>[[1, 1, 1]]\<close>
  again, and \<open>[[0, 0, 0]]\<close> is current only after the third tick.
\<close>

theorem second_tick_repeats_generation:
  "map (heap (rt (run [Start, Fire 1] blinker_world)))
     (m_data (run [Start, Fire 1] blinker_world)) = [[Num 1, Num 1, Num 1]] \<and>
   map (heap (snd (tick (m_data (run [Start, Fire 1] blinker_world))
                        (m_swap (run [Start, Fire 1] blinker_world)) None
                        (rt (run [Start, Fire 1] blinker_world)))))
     (m_swap (run [Start, Fire 1] blinker_world)) = [[Num 0, Num 0, Num 0]] \<and>
   map (heap (rt (run [Start, Fire 1, Fire 1] blinker_world)))
     (m_data (run [Start, Fire 1, Fire 1] blinker_world)) = [[Num 1, Num 1, Num 1]] \<and>
   map (heap (rt (run [Start, Fire 1, Fire 1, Fire 1] blinker_world)))
     (m_data (run [Start, Fire 1, Fire 1, Fire 1] blinker_world)) = [[Num 0, Num 0, Num 0]]"
proof -
  have a: "map (heap (rt (run [Start, Fire 1] blinker_world)))
     (m_data (run [Start, Fire 1] blinker_world)) = [[Num 1, Num 1, Num 1]]"
    by (simp only: blinker_first) (simp add: blinker_rt1_def)
  have b: "map (heap (snd (tick (m_data (run [Start, Fire 1] blinker_world))
                        (m_swap (run [Start, Fire 1] blinker_world)) None
                        (rt (run [Start, Fire 1] blinker_world)))))
     (m_swap (run [Start, Fire 1] blinker_world)) = [[Num 0, Num 0, Num 0]]"
    by (simp only: blinker_first blinker_tick3) simp
  have c: "map (heap (rt (run [Start, Fire 1, Fire 1] blinker_world)))
     (m_data (run [Start, Fire 1, Fire 1] blinker_world)) = [[Num 1, Num 1, Num 1]]"
    by (simp only: blinker_second) (simp add: blinker_rt1_def)
  have d: "map (heap (rt (run [Start, Fire 1, Fire 1, Fire 1] blinker_world)))
     (m_data (run [Start, Fire 1, Fire 1, Fire 1] blinker_world)) = [[Num 0, Num 0, Num 0]]"
    by (simp only: blinker_third) simp
  show ?thesis using a b c d by blast
qed









end
